theory Spec2Isabelle
  imports Main
begin

section \<open>The expression tree\<close>

text \<open>
  The orchestration script \<^verbatim>\<open>foo-copy.py\<close> parses a boolean expression whose atoms name
  task units, checks the fingerprint of every task unit, and then evaluates the tree.

  Every node object carries a \<^verbatim>\<open>result\<close> attribute: \<^verbatim>\<open>None\<close> after construction, the
  integer status code after a \<^verbatim>\<open>ScriptNode\<close> was evaluated, a boolean after an operator
  node was evaluated. The three kinds of Python value are kept apart.
\<close>

datatype pyval = PyNone | PyInt int | PyBool bool

text \<open>
  The classes \<^verbatim>\<open>ScriptNode\<close>, \<^verbatim>\<open>NotNode\<close>, \<^verbatim>\<open>AndNode\<close> and \<^verbatim>\<open>OrNode\<close>. The
  \<^verbatim>\<open>operator\<close> attribute of a \<^verbatim>\<open>LogicalOperatorNode\<close> is a function of the class and of
  \<^verbatim>\<open>circuit_breaking\<close> and is computed where it is needed (in \<open>str\<close>).
\<close>

datatype node =
    ScriptNode (result: pyval) (name: string) (args: "string list")
  | NotNode (result: pyval) (child: "node option")
  | AndNode (result: pyval) (circuit_breaking: bool) (children: "node list")
  | OrNode (result: pyval) (circuit_breaking: bool) (children: "node list")

section \<open>Effects\<close>

text \<open>
  What the program does to its surroundings is recorded in a trace: a task invocation
  (one call of \<^verbatim>\<open>executor_func\<close>), a test whether a task directory exists
  (\<^verbatim>\<open>os.path.isdir\<close>), and the computation of a directory fingerprint
  (\<^verbatim>\<open>calculate_directory_hash\<close>). The state \<open>st\<close> stands for everything a task unit may
  read or change (the file system above all). Console output is not modelled.
\<close>

datatype event =
    is_Invoke: Invoke string "string list"
  | DirCheck string
  | Fingerprint string

record 's world =
  st :: 's
  events :: "event list"

text \<open>
  \<^verbatim>\<open>executor_func(name, args, verify_hash, expected_hash)\<close> returns a status code. The
  driver passes \<^verbatim>\<open>dynamic_import_and_run\<close>, which loads and runs the module of the task
  unit; the evaluator works with any such function.
\<close>

type_synonym 's executor =
  "string \<Rightarrow> string list \<Rightarrow> bool \<Rightarrow> string option \<Rightarrow> 's \<Rightarrow> int \<times> 's"

text \<open>The registry \<^verbatim>\<open>script_hashes\<close> is a dictionary from task names to fingerprints.\<close>

type_synonym hashes = "(string \<times> string) list"

definition dict_get :: "hashes \<Rightarrow> string \<Rightarrow> string option" where
  "dict_get d k = map_of d k"

section \<open>Evaluation\<close>

text \<open>
  The \<^verbatim>\<open>evaluate\<close> methods. A node is mutated by its evaluation (the \<^verbatim>\<open>result\<close>
  attribute), so \<open>evaluate\<close> returns the boolean, the node after the call, and the world
  after the call. \<open>and_loop\<close> and \<open>or_loop\<close> are the \<^verbatim>\<open>for child in self.children\<close> loops
  of \<^verbatim>\<open>AndNode.evaluate\<close> and \<^verbatim>\<open>OrNode.evaluate\<close>; their argument \<open>res\<close> is the local
  variable \<^verbatim>\<open>result\<close>, and \<^verbatim>\<open>break\<close> leaves the remaining children as they are.

  In \<^verbatim>\<open>ScriptNode.evaluate\<close> the expected hash is
  \<^verbatim>\<open>script_hashes.get(self.name) if verify_hash and script_hashes else None\<close>
  (\<open>expected_hash_of\<close>); an empty dictionary and \<^verbatim>\<open>None\<close> are both false.
\<close>

definition expected_hash_of :: "bool \<Rightarrow> hashes option \<Rightarrow> string \<Rightarrow> string option" where
  "expected_hash_of vh sh n =
     (case sh of
        None \<Rightarrow> None
      | Some d \<Rightarrow> if vh \<and> d \<noteq> [] then dict_get d n else None)"

fun evaluate :: "'s executor \<Rightarrow> bool \<Rightarrow> hashes option \<Rightarrow> node \<Rightarrow> 's world
                  \<Rightarrow> bool \<times> node \<times> 's world"
and and_loop :: "'s executor \<Rightarrow> bool \<Rightarrow> hashes option \<Rightarrow> bool \<Rightarrow> node list \<Rightarrow> bool
                  \<Rightarrow> 's world \<Rightarrow> bool \<times> node list \<times> 's world"
and or_loop :: "'s executor \<Rightarrow> bool \<Rightarrow> hashes option \<Rightarrow> bool \<Rightarrow> node list \<Rightarrow> bool
                  \<Rightarrow> 's world \<Rightarrow> bool \<times> node list \<times> 's world"
where
  "evaluate ex vh sh (ScriptNode r n a) w =
     (let expected_hash = expected_hash_of vh sh n;
          (code, s') = ex n a vh expected_hash (st w);
          w' = w\<lparr>st := s', events := events w @ [Invoke n a]\<rparr>
      in (code = 0, ScriptNode (PyInt code) n a, w'))"
| "evaluate ex vh sh (NotNode r None) w = (False, NotNode r None, w)"
| "evaluate ex vh sh (NotNode r (Some c)) w =
     (let (child_result, c', w') = evaluate ex vh sh c w;
          res = \<not> child_result
      in (res, NotNode (PyBool res) (Some c'), w'))"
| "evaluate ex vh sh (AndNode r cb cs) w =
     (let (res, cs', w') = and_loop ex vh sh cb cs True w
      in (res, AndNode (PyBool res) cb cs', w'))"
| "evaluate ex vh sh (OrNode r cb cs) w =
     (let (res, cs', w') = or_loop ex vh sh cb cs False w
      in (res, OrNode (PyBool res) cb cs', w'))"
| "and_loop ex vh sh cb [] res w = (res, [], w)"
| "and_loop ex vh sh cb (c # cs) res w =
     (let (child_result, c', w1) = evaluate ex vh sh c w
      in if \<not> child_result
         then (if cb then (False, c' # cs, w1)
               else (let (res', cs', w2) = and_loop ex vh sh cb cs False w1
                     in (res', c' # cs', w2)))
         else (let (res', cs', w2) = and_loop ex vh sh cb cs res w1
               in (res', c' # cs', w2)))"
| "or_loop ex vh sh cb [] res w = (res, [], w)"
| "or_loop ex vh sh cb (c # cs) res w =
     (let (child_result, c', w1) = evaluate ex vh sh c w
      in if child_result
         then (if cb then (True, c' # cs, w1)
               else (let (res', cs', w2) = or_loop ex vh sh cb cs True w1
                     in (res', c' # cs', w2)))
         else (let (res', cs', w2) = or_loop ex vh sh cb cs res w1
               in (res', c' # cs', w2)))"

text \<open>
  Evaluating every node of a list, one after the other, each in the world its predecessor
  left: the booleans, the nodes after their evaluation, and the final world. It is the
  yardstick for the loops above.
\<close>

fun eval_each :: "'s executor \<Rightarrow> bool \<Rightarrow> hashes option \<Rightarrow> node list \<Rightarrow> 's world
                   \<Rightarrow> bool list \<times> node list \<times> 's world" where
  "eval_each ex vh sh [] w = ([], [], w)"
| "eval_each ex vh sh (c # cs) w =
     (let (b, c', w1) = evaluate ex vh sh c w;
          (bs, cs', w2) = eval_each ex vh sh cs w1
      in (b # bs, c' # cs', w2))"

section \<open>The fingerprint service\<close>

text \<open>
  The operating system as the program sees it. \<open>script_folder n\<close> is
  \<^verbatim>\<open>os.path.join(os.getcwd(), n)\<close>; \<open>isdir\<close> is \<^verbatim>\<open>os.path.isdir\<close>;
  \<open>calculate_directory_hash s path exclude_dirs\<close> is the function of that name in
  \<^verbatim>\<open>directory_hash.py\<close>, which walks the directory and returns the hexadecimal MD5 digest
  of its sorted entries, or \<^verbatim>\<open>None\<close> when the path does not exist or holds no entry. The
  digest itself is not computed here: the function is a parameter, and every call of it
  is recorded in the trace.
\<close>

record 's os =
  script_folder :: "string \<Rightarrow> string"
  isdir :: "'s \<Rightarrow> string \<Rightarrow> bool"
  calculate_directory_hash :: "'s \<Rightarrow> string \<Rightarrow> string list option \<Rightarrow> string option"

text \<open>
  \<^verbatim>\<open>verify_directory_hash(directory_path, expected_hash, exclude_dirs)\<close>. The test
  \<^verbatim>\<open>if not expected_hash\<close> is true for \<^verbatim>\<open>None\<close> and for the empty string.
\<close>

definition verify_directory_hash ::
  "'s os \<Rightarrow> string \<Rightarrow> string option \<Rightarrow> string list option \<Rightarrow> 's world \<Rightarrow> bool \<times> 's world" where
  "verify_directory_hash sys directory_path expected_hash exclude_dirs w =
     (case expected_hash of
        None \<Rightarrow> (True, w)
      | Some h \<Rightarrow>
          if h = [] then (True, w)
          else (let current_hash = calculate_directory_hash sys (st w) directory_path exclude_dirs;
                    w' = w\<lparr>events := events w @ [Fingerprint directory_path]\<rparr>
                in (current_hash = Some h, w')))"

section \<open>Strings\<close>

text \<open>
  \<^verbatim>\<open>str.isspace\<close>, and the class \<^verbatim>\<open>\s\<close> of the regular expressions, on the characters
  below 256: the ASCII white space, the four separators 28 to 31, NEL and the no-break
  space. \<open>strip\<close> is \<^verbatim>\<open>str.strip()\<close>, \<open>slice s a b\<close> is \<^verbatim>\<open>s[a:b]\<close> for
  indices that are not negative, \<open>py_find s sub i\<close> is \<^verbatim>\<open>s.find(sub, i)\<close> with \<open>None\<close>
  for \<^verbatim>\<open>-1\<close>, and \<open>count s c\<close> is \<^verbatim>\<open>s.count(c)\<close> for a single character.
\<close>

definition isspace :: "char \<Rightarrow> bool" where
  "isspace c = (of_char c \<in> {9, 10, 11, 12, 13, 28, 29, 30, 31, 32, 133, 160 :: nat})"

definition strip :: "string \<Rightarrow> string" where
  "strip s = rev (dropWhile isspace (rev (dropWhile isspace s)))"

definition slice :: "string \<Rightarrow> nat \<Rightarrow> nat \<Rightarrow> string" where
  "slice s a b = take (b - a) (drop a s)"

function py_find :: "string \<Rightarrow> string \<Rightarrow> nat \<Rightarrow> nat option" where
  "py_find s sub i =
     (if length s < i + length sub then None
      else if slice s i (i + length sub) = sub then Some i
      else py_find s sub (Suc i))"
  by pat_completeness auto
termination
  by (relation "measure (\<lambda>(s, sub, i). Suc (length s) - i)") auto

declare py_find.simps [simp del]

definition count :: "string \<Rightarrow> char \<Rightarrow> nat" where
  "count s c = length (filter (\<lambda>x. x = c) s)"

text \<open>The loop \<^verbatim>\<open>while pos < len(expr) and expr[pos].isspace(): pos += 1\<close>.\<close>

function skip_ws :: "string \<Rightarrow> nat \<Rightarrow> nat" where
  "skip_ws expr pos =
     (if pos < length expr \<and> isspace (expr ! pos) then skip_ws expr (Suc pos) else pos)"
  by pat_completeness auto
termination
  by (relation "measure (\<lambda>(expr, pos). length expr - pos)") auto

declare skip_ws.simps [simp del]

text \<open>The same loop, skipping commas as well (in \<^verbatim>\<open>_parse_operator_children\<close>).\<close>

function skip_ws_commas :: "string \<Rightarrow> nat \<Rightarrow> nat" where
  "skip_ws_commas expr pos =
     (if pos < length expr \<and> (isspace (expr ! pos) \<or> expr ! pos = CHR '','')
      then skip_ws_commas expr (Suc pos) else pos)"
  by pat_completeness auto
termination
  by (relation "measure (\<lambda>(expr, pos). length expr - pos)") auto

declare skip_ws_commas.simps [simp del]

text \<open>
  The recovery loop of \<^verbatim>\<open>_parse_expression\<close>:
  \<^verbatim>\<open>while pos < len(expr) and expr[pos] not in "()[],&|": pos += 1\<close>.
\<close>

function skip_to_token :: "string \<Rightarrow> nat \<Rightarrow> nat" where
  "skip_to_token expr pos =
     (if pos < length expr \<and> expr ! pos \<notin> set ''()[],&|''
      then skip_to_token expr (Suc pos) else pos)"
  by pat_completeness auto
termination
  by (relation "measure (\<lambda>(expr, pos). length expr - pos)") auto

declare skip_to_token.simps [simp del]

section \<open>The format check\<close>

lemma py_find_ge: "py_find s sub i = Some k \<Longrightarrow> i \<le> k \<and> k + length sub \<le> length s"
proof (induction s sub i rule: py_find.induct)
  case (1 s sub i)
  from "1.prems" "1.IH" show ?case
    using py_find.simps [of s sub i] by (auto split: if_splits)
qed

text \<open>
  The \<^verbatim>\<open>while i < len(expression)\<close> loop of \<^verbatim>\<open>validate_expression_format\<close> for one
  operator \<open>op\<close>, from the index \<open>i\<close>; \<open>False\<close> is the \<^verbatim>\<open>return False\<close> of the loop.
  The source runs it for the four operators \<^verbatim>\<open>"&&"\<close>, \<^verbatim>\<open>"||"\<close>, \<^verbatim>\<open>"&"\<close>, \<^verbatim>\<open>"|"\<close>
  only; the guard \<open>op \<noteq> []\<close> keeps the function total on the operators it is never
  called with.
\<close>

function check_op :: "string \<Rightarrow> string \<Rightarrow> nat \<Rightarrow> bool" where
  "check_op op expression i =
     (if op \<noteq> [] \<and> i < length expression then
        (case py_find expression op i of
           None \<Rightarrow> True
         | Some k \<Rightarrow>
             if (op = ''&'' \<or> op = ''|'') \<and> k + 1 < length expression
                 \<and> expression ! (k + 1) = expression ! k
             then check_op op expression (k + 1)
             else (let j = skip_ws expression (k + length op)
                   in if length expression \<le> j \<or> expression ! j \<noteq> CHR ''[''
                      then False
                      else check_op op expression (k + length op)))
      else True)"
  by pat_completeness auto
termination
proof (relation "measure (\<lambda>(op, expression, i). length expression - i)", goal_cases)
  case 1
  show ?case by simp
next
  case (2 op expression i k)
  then show ?case using py_find_ge [of expression op i k] by auto
next
  case (3 op expression i k j)
  then have "op \<noteq> []" and "i \<le> k" and "k + length op \<le> length expression"
    using py_find_ge [of expression op i k] by auto
  then show ?case by (cases op) auto
qed

declare check_op.simps [simp del]

definition validate_expression_format :: "string \<Rightarrow> bool" where
  "validate_expression_format expression =
     (if count expression CHR ''['' \<noteq> count expression CHR '']'' then False
      else if count expression CHR ''('' \<noteq> count expression CHR '')'' then False
      else if \<not> check_op ''&&'' expression 0 then False
      else if \<not> check_op ''||'' expression 0 then False
      else if \<not> check_op ''&'' expression 0 then False
      else if \<not> check_op ''|'' expression 0 then False
      else True)"

section \<open>Normalisation\<close>

text \<open>
  \<^verbatim>\<open>re.sub(r'\s*C\s*', repl, s)\<close> for a character \<open>c\<close> that is not white space: the
  leftmost match at a position takes all the white space there, needs \<open>c\<close> next, and
  takes all the white space after it; where there is no match the character is copied.
\<close>

function re_sub_around :: "char \<Rightarrow> string \<Rightarrow> string \<Rightarrow> string" where
  "re_sub_around c repl [] = []"
| "re_sub_around c repl (x # xs) =
     (case dropWhile isspace (x # xs) of
        [] \<Rightarrow> x # re_sub_around c repl xs
      | y # ys \<Rightarrow>
          if y = c then repl @ re_sub_around c repl (dropWhile isspace ys)
          else x # re_sub_around c repl xs)"
  by pat_completeness auto
termination
proof (relation "measure (\<lambda>(c, repl, s). length s)", goal_cases)
  case 1
  show ?case by simp
next
  case (2 c repl x xs)
  show ?case by simp
next
  case (3 c repl x xs y ys)
  have "length (dropWhile isspace ys) \<le> length ys"
    by (rule length_dropWhile_le)
  moreover have "length (y # ys) \<le> length (x # xs)"
    using length_dropWhile_le [of isspace "x # xs"] 3(1) by simp
  ultimately show ?case by simp
next
  case (4 c repl x xs y ys)
  show ?case by simp
qed

text \<open>\<^verbatim>\<open>re.sub(r'\s+', ' ', s)\<close>: every run of white space becomes one blank.\<close>

function re_sub_spaces :: "string \<Rightarrow> string" where
  "re_sub_spaces [] = []"
| "re_sub_spaces (x # xs) =
     (if isspace x then CHR '' '' # re_sub_spaces (dropWhile isspace xs)
      else x # re_sub_spaces xs)"
  by pat_completeness auto
termination
  by (relation "measure length") (auto intro: le_imp_less_Suc length_dropWhile_le)

text \<open>The six substitutions of \<^verbatim>\<open>parse_logical_expression\<close> and the final \<^verbatim>\<open>strip\<close>.\<close>

definition normalize :: "string \<Rightarrow> string" where
  "normalize expression =
     (let e1 = re_sub_around CHR ''['' '' [ '' expression;
          e2 = re_sub_around CHR '']'' '' ] '' e1;
          e3 = re_sub_around CHR ''('' '' ( '' e2;
          e4 = re_sub_around CHR '')'' '' ) '' e3;
          e5 = re_sub_around CHR '','' '', '' e4
      in strip (re_sub_spaces e5))"

section \<open>The parser\<close>

text \<open>
  The argument loop of \<^verbatim>\<open>_parse_script_node\<close>. \<open>strip_quotes\<close> is what the loop does
  with a finished argument: strip it, and drop a pair of surrounding double quotes
  (character 0x22). \<open>args_loop\<close> is the \<^verbatim>\<open>while i < len(args_str)\<close> loop on the rest of
  \<^verbatim>\<open>args_str\<close> from \<^verbatim>\<open>i\<close> on, with the local variables \<^verbatim>\<open>current_arg\<close>, \<^verbatim>\<open>in_quotes\<close>
  and \<^verbatim>\<open>args\<close>; a backslash (character 0x5C) that is not the last character takes
  the next character as it is.
\<close>

definition strip_quotes :: "string \<Rightarrow> string" where
  "strip_quotes current_arg =
     (let arg_str = strip current_arg
      in if arg_str \<noteq> [] \<and> hd arg_str = CHR 0x22 \<and> last arg_str = CHR 0x22
            \<and> 2 \<le> length arg_str
         then slice arg_str 1 (length arg_str - 1)
         else arg_str)"

fun args_loop :: "string \<Rightarrow> string \<Rightarrow> bool \<Rightarrow> string list \<Rightarrow> string list \<times> string" where
  "args_loop [] current_arg in_quotes arglist = (arglist, current_arg)"
| "args_loop [c] current_arg in_quotes arglist =
     (if c = CHR 0x22 then (arglist, current_arg @ [c])
      else if c = CHR '','' \<and> \<not> in_quotes then (arglist @ [strip_quotes current_arg], [])
      else (arglist, current_arg @ [c]))"
| "args_loop (c # d # rest) current_arg in_quotes arglist =
     (if c = CHR 0x5C then args_loop rest (current_arg @ [d]) in_quotes arglist
      else if c = CHR 0x22
           then args_loop (d # rest) (current_arg @ [c]) (\<not> in_quotes) arglist
      else if c = CHR '','' \<and> \<not> in_quotes
           then args_loop (d # rest) [] in_quotes (arglist @ [strip_quotes current_arg])
      else args_loop (d # rest) (current_arg @ [c]) in_quotes arglist)"

definition parse_args :: "string \<Rightarrow> string list" where
  "parse_args args_str =
     (if args_str = [] then []
      else (let (arglist, current_arg) = args_loop args_str [] False []
            in if current_arg \<noteq> [] then arglist @ [strip_quotes current_arg] else arglist))"

text \<open>
  \<^verbatim>\<open>_parse_script_node(expr, pos)\<close>, called with \<^verbatim>\<open>expr[pos] == "("\<close>. When there is no
  closing parenthesis, \<^verbatim>\<open>close_pos\<close> is \<^verbatim>\<open>-1\<close>: the test \<^verbatim>\<open>colon_pos < close_pos\<close> fails,
  the name is \<^verbatim>\<open>expr[pos:-1]\<close> and the position returned is \<^verbatim>\<open>close_pos + 1 = 0\<close>.
\<close>

definition parse_script_node :: "string \<Rightarrow> nat \<Rightarrow> node \<times> nat" where
  "parse_script_node expr pos0 =
     (let pos = pos0 + 1;
          colon_pos = py_find expr '':'' pos;
          close_pos = py_find expr '')'' pos
      in case close_pos of
           None \<Rightarrow> (ScriptNode PyNone (strip (slice expr pos (length expr - 1))) [], 0)
         | Some cl \<Rightarrow>
             (case colon_pos of
                None \<Rightarrow> (ScriptNode PyNone (strip (slice expr pos cl)) [], cl + 1)
              | Some co \<Rightarrow>
                  if co < cl
                  then (ScriptNode PyNone (strip (slice expr pos co))
                          (parse_args (strip (slice expr (co + 1) cl))), cl + 1)
                  else (ScriptNode PyNone (strip (slice expr pos cl)) [], cl + 1)))"

text \<open>
  \<^verbatim>\<open>_parse_expression\<close> and \<^verbatim>\<open>_parse_operator_children\<close> call each other, and the
  \<^verbatim>\<open>while pos < len(expr) and expr[pos] != "]"\<close> loop of the latter (\<open>children_loop\<close>)
  goes on as long as the position it gets back is not at a closing bracket. Nothing in
  the source bounds these calls, so the model counts them: every call and every round of
  the loop takes one unit of \<open>fuel\<close>, and \<open>None\<close> says that the fuel did not suffice.
  A run of the source that never returns is \<open>None\<close> for every amount of fuel.

  The result \<open>Some (nd, pos)\<close> is the pair \<^verbatim>\<open>(node, pos)\<close> the source returns, \<open>nd = None\<close>
  being Python's \<^verbatim>\<open>None\<close>. A node object is true in \<^verbatim>\<open>if child:\<close>, so the test is a
  test for \<^verbatim>\<open>None\<close>.
\<close>

fun parse_expression :: "nat \<Rightarrow> string \<Rightarrow> nat \<Rightarrow> (node option \<times> nat) option"
and parse_operator_children :: "nat \<Rightarrow> string \<Rightarrow> nat \<Rightarrow> (node list \<times> nat) option"
and children_loop :: "nat \<Rightarrow> string \<Rightarrow> nat \<Rightarrow> node list \<Rightarrow> (node list \<times> nat) option"
where
  "parse_expression 0 expr pos0 = None"
| "parse_expression (Suc fuel) expr pos0 =
     (let pos = skip_ws expr pos0
      in if length expr \<le> pos then Some (None, pos)
         else if expr ! pos = CHR ''!'' then
           (let pos1 = skip_ws expr (pos + 1)
            in if pos1 < length expr
               then (case parse_expression fuel expr pos1 of
                       None \<Rightarrow> None
                     | Some (ch, pos2) \<Rightarrow> Some (Some (NotNode PyNone ch), pos2))
               else Some (Some (NotNode PyNone None), pos1))
         else if slice expr pos (pos + 2) = ''&&'' then
           (case parse_operator_children fuel expr (pos + 2) of
              None \<Rightarrow> None
            | Some (cs, pos1) \<Rightarrow> Some (Some (AndNode PyNone True cs), pos1))
         else if slice expr pos (pos + 2) = ''||'' then
           (case parse_operator_children fuel expr (pos + 2) of
              None \<Rightarrow> None
            | Some (cs, pos1) \<Rightarrow> Some (Some (OrNode PyNone True cs), pos1))
         else if expr ! pos = CHR ''&''
                 \<and> (length expr \<le> pos + 1 \<or> expr ! (pos + 1) \<noteq> CHR ''&'') then
           (case parse_operator_children fuel expr (pos + 1) of
              None \<Rightarrow> None
            | Some (cs, pos1) \<Rightarrow> Some (Some (AndNode PyNone False cs), pos1))
         else if expr ! pos = CHR ''|''
                 \<and> (length expr \<le> pos + 1 \<or> expr ! (pos + 1) \<noteq> CHR ''|'') then
           (case parse_operator_children fuel expr (pos + 1) of
              None \<Rightarrow> None
            | Some (cs, pos1) \<Rightarrow> Some (Some (OrNode PyNone False cs), pos1))
         else if expr ! pos = CHR ''('' then
           (let (nd, pos1) = parse_script_node expr pos in Some (Some nd, pos1))
         else Some (None, skip_to_token expr pos))"
| "parse_operator_children 0 expr pos0 = None"
| "parse_operator_children (Suc fuel) expr pos0 =
     (let pos = skip_ws expr pos0
      in if pos < length expr \<and> expr ! pos = CHR ''[''
         then (case children_loop fuel expr (pos + 1) [] of
                 None \<Rightarrow> None
               | Some (cs, pos1) \<Rightarrow>
                   if pos1 < length expr \<and> expr ! pos1 = CHR '']''
                   then Some (cs, pos1 + 1)
                   else Some (cs, pos1))
         else Some ([], pos))"
| "children_loop 0 expr pos cs = None"
| "children_loop (Suc fuel) expr pos cs =
     (if pos < length expr \<and> expr ! pos \<noteq> CHR '']''
      then (let pos1 = skip_ws_commas expr pos
            in if pos1 < length expr \<and> expr ! pos1 \<noteq> CHR '']''
               then (case parse_expression fuel expr pos1 of
                       None \<Rightarrow> None
                     | Some (ch, pos2) \<Rightarrow>
                         children_loop fuel expr pos2
                           (case ch of None \<Rightarrow> cs | Some c \<Rightarrow> cs @ [c]))
               else Some (cs, pos1))
      else Some (cs, pos))"

text \<open>
  \<^verbatim>\<open>parse_logical_expression\<close>: \<open>Some None\<close> is the result \<^verbatim>\<open>None\<close> (a parse failure),
  \<open>Some (Some t)\<close> is a tree, and \<open>None\<close> is a parser that ran out of fuel.
\<close>

definition parse_logical_expression :: "nat \<Rightarrow> string \<Rightarrow> node option option" where
  "parse_logical_expression fuel expression =
     (if \<not> validate_expression_format expression then Some None
      else (case parse_expression fuel (normalize expression) 0 of
              None \<Rightarrow> None
            | Some (nd, pos) \<Rightarrow> Some nd))"

section \<open>Serialisation\<close>

text \<open>
  The \<^verbatim>\<open>__str__\<close> methods; \<open>join sep xs\<close> is \<^verbatim>\<open>sep.join(xs)\<close>. A \<^verbatim>\<open>NotNode\<close> without a
  child prints the \<^verbatim>\<open>None\<close> it holds.
\<close>

definition join :: "string \<Rightarrow> string list \<Rightarrow> string" where
  "join sep xs = (case xs of [] \<Rightarrow> [] | y # ys \<Rightarrow> y @ concat (map (\<lambda>z. sep @ z) ys))"

fun str :: "node \<Rightarrow> string" where
  "str (ScriptNode r n a) =
     (if a \<noteq> [] then ''('' @ n @ '':'' @ join '','' a @ '')'' else ''('' @ n @ '')'')"
| "str (NotNode r None) = ''!None''"
| "str (NotNode r (Some c)) = ''!'' @ str c"
| "str (AndNode r cb cs) =
     (if cb then ''&&'' else ''&'') @ '' [ '' @ join '', '' (map str cs) @ '' ]''"
| "str (OrNode r cb cs) =
     (if cb then ''||'' else ''|'') @ '' [ '' @ join '', '' (map str cs) @ '' ]''"

section \<open>The driver\<close>

fun collect_script_names_from_tree :: "node \<Rightarrow> string list" where
  "collect_script_names_from_tree (ScriptNode r n a) = [n]"
| "collect_script_names_from_tree (NotNode r None) = []"
| "collect_script_names_from_tree (NotNode r (Some c)) = collect_script_names_from_tree c"
| "collect_script_names_from_tree (AndNode r cb cs) =
     concat (map collect_script_names_from_tree cs)"
| "collect_script_names_from_tree (OrNode r cb cs) =
     concat (map collect_script_names_from_tree cs)"

text \<open>The directories \<^verbatim>\<open>main\<close> leaves out of every fingerprint.\<close>

definition exclude_dirs :: "string list" where
  "exclude_dirs = [''__pycache__'', ''.git'', ''.vscode'']"

text \<open>
  The loop \<^verbatim>\<open>for script_name in script_names\<close> of \<^verbatim>\<open>main\<close> (step 2). The boolean is
  \<^verbatim>\<open>all_hashes_valid\<close> when the loop is left; each \<^verbatim>\<open>break\<close> returns at once.
\<close>

fun verify_loop :: "'s os \<Rightarrow> hashes \<Rightarrow> string list \<Rightarrow> 's world \<Rightarrow> bool \<times> 's world" where
  "verify_loop sys script_hashes [] w = (True, w)"
| "verify_loop sys script_hashes (script_name # rest) w =
     (let folder = script_folder sys script_name;
          w1 = w\<lparr>events := events w @ [DirCheck folder]\<rparr>
      in if \<not> isdir sys (st w) folder then (False, w1)
         else (case dict_get script_hashes script_name of
                 Some expected_hash \<Rightarrow>
                   (let actual_hash = calculate_directory_hash sys (st w) folder (Some exclude_dirs);
                        w2 = w1\<lparr>events := events w1 @ [Fingerprint folder]\<rparr>
                    in if actual_hash \<noteq> Some expected_hash then (False, w2)
                       else verify_loop sys script_hashes rest w2)
               | None \<Rightarrow> (False, w1)))"

text \<open>
  \<^verbatim>\<open>main\<close> from step 1 on, for a tree that was parsed: collect the names, drop the
  duplicates, verify, evaluate, and turn the boolean into the exit code. The order of
  \<^verbatim>\<open>list(set(script_names))\<close> is up to the Python runtime, so the function \<open>list_set\<close> that
  lists the set is a parameter. The registry is the parameter \<open>script_hashes\<close>; the
  source binds it to the table \<open>default_script_hashes\<close>. The result is the exit code and
  the world at exit.
\<close>

definition main_after_parse ::
  "'s os \<Rightarrow> 's executor \<Rightarrow> (string list \<Rightarrow> string list) \<Rightarrow> hashes \<Rightarrow> node \<Rightarrow> 's world
     \<Rightarrow> int \<times> 's world" where
  "main_after_parse sys dynamic_import_and_run list_set script_hashes expression_tree w =
     (let script_names = list_set (collect_script_names_from_tree expression_tree);
          (all_hashes_valid, w1) = verify_loop sys script_hashes script_names w
      in if \<not> all_hashes_valid then (1, w1)
         else (let (logical_result, tree', w2) =
                     evaluate dynamic_import_and_run False (Some script_hashes) expression_tree w1;
                   final_code = (if logical_result then 0 else 1)
               in (final_code, w2)))"

definition default_script_hashes :: hashes where
  "default_script_hashes =
     [(''A'', ''6c8c069a22d96be8a18c21722cdac82d''),
      (''B'', ''efa8b2f56b3c0c5414e8bf6f91da1dd5''),
      (''C'', ''d1a041a123788ac2406389c107512f1d''),
      (''D'', ''32453a3fda76985d04905378d172f3ce''),
      (''E'', ''2861031a067f87fdb0d2bb7ebf0bd679'')]"

text \<open>
  \<^verbatim>\<open>main\<close>, with \<^verbatim>\<open>sys.argv\<close> as \<open>argv\<close>. \<open>None\<close> is a run whose parser did not return
  within \<open>fuel\<close>; \<open>Some (code, w)\<close> is \<^verbatim>\<open>sys.exit(code)\<close> in the world \<open>w\<close>.
\<close>

definition main ::
  "'s os \<Rightarrow> 's executor \<Rightarrow> (string list \<Rightarrow> string list) \<Rightarrow> hashes \<Rightarrow> nat \<Rightarrow> string list
     \<Rightarrow> 's world \<Rightarrow> (int \<times> 's world) option" where
  "main sys dynamic_import_and_run list_set script_hashes fuel argv w =
     (if length argv < 3 then Some (1, w)
      else (let expression_string = argv ! 2
            in case parse_logical_expression fuel expression_string of
                 None \<Rightarrow> None
               | Some None \<Rightarrow> Some (1, w)
               | Some (Some expression_tree) \<Rightarrow>
                   Some (main_after_parse sys dynamic_import_and_run list_set script_hashes
                           expression_tree w)))"

text \<open>
  What claim C1 calls a task referenced in the tree, said without the collector of the
  source: \<open>referenced m t\<close> holds when some atom of \<open>t\<close>, at any depth, has the name \<open>m\<close>.
\<close>

fun referenced :: "string \<Rightarrow> node \<Rightarrow> bool" where
  "referenced m (ScriptNode r n a) = (m = n)"
| "referenced m (NotNode r None) = False"
| "referenced m (NotNode r (Some c)) = referenced m c"
| "referenced m (AndNode r cb cs) = list_ex (referenced m) cs"
| "referenced m (OrNode r cb cs) = list_ex (referenced m) cs"

text \<open>
  The three pre-flight checks on one name, as a predicate on the state the checks read:
  the task directory exists, the registry has an entry for the name, and the fingerprint
  computed for the directory is the one registered. \<open>check_events\<close> is what checking
  one name adds to the trace: the directory test, and the fingerprint computation when
  the directory exists and the name is registered.
\<close>

definition passes :: "'s os \<Rightarrow> hashes \<Rightarrow> 's \<Rightarrow> string \<Rightarrow> bool" where
  "passes sys script_hashes s n =
     (isdir sys s (script_folder sys n)
      \<and> (case dict_get script_hashes n of
            None \<Rightarrow> False
          | Some expected_hash \<Rightarrow>
              calculate_directory_hash sys s (script_folder sys n) (Some exclude_dirs)
                = Some expected_hash))"

definition check_events :: "'s os \<Rightarrow> hashes \<Rightarrow> 's \<Rightarrow> string \<Rightarrow> event list" where
  "check_events sys script_hashes s n =
     (if isdir sys s (script_folder sys n) \<and> dict_get script_hashes n \<noteq> None
      then [DirCheck (script_folder sys n), Fingerprint (script_folder sys n)]
      else [DirCheck (script_folder sys n)])"

section \<open>Concrete inputs\<close>

text \<open>
  Inputs for the concrete instances below. With the executor \<open>status_A\<close> the task \<open>A\<close>
  succeeds and every other task fails, and the state counts the invocations; \<open>atom n\<close> is
  the node of \<open>(n)\<close> before it is evaluated, \<open>ran n\<close> the same node after its evaluation
  by \<open>status_A\<close>.
\<close>

definition status_A :: "nat executor" where
  "status_A n a vh eh s = (if n = ''A'' then 0 else 1, Suc s)"

definition atom :: "string \<Rightarrow> node" where
  "atom n = ScriptNode PyNone n []"

definition ran :: "string \<Rightarrow> node" where
  "ran n = ScriptNode (PyInt (if n = ''A'' then 0 else 1)) n []"

text \<open>
  A file system in which the directories \<open>/A\<close>, \<open>/B\<close> and \<open>/C\<close> exist, with the
  fingerprints \<open>aa\<close>, \<open>bb\<close> and \<open>cc\<close>; a registry that knows \<open>A\<close> and \<open>B\<close> and has
  no entry for \<open>C\<close>; and a registry with a stale fingerprint for \<open>B\<close>.
\<close>

definition sys0 :: "nat os" where
  "sys0 = \<lparr>script_folder = (\<lambda>n. ''/'' @ n),
           isdir = (\<lambda>s p. p = ''/A'' \<or> p = ''/B'' \<or> p = ''/C''),
           calculate_directory_hash =
             (\<lambda>s p ex. if p = ''/A'' then Some ''aa''
                      else if p = ''/B'' then Some ''bb''
                      else if p = ''/C'' then Some ''cc'' else None)\<rparr>"

definition good_hashes :: hashes where
  "good_hashes = [(''A'', ''aa''), (''B'', ''bb'')]"

definition stale_hashes :: hashes where
  "stale_hashes = [(''A'', ''aa''), (''B'', ''b0'')]"

section \<open>Trees with plain atoms\<close>

text \<open>
  A plain word is not empty and has no white space and none of the characters that the
  parser or the format check give a meaning to: the parentheses and brackets, the comma,
  \<open>&\<close>, \<open>|\<close>, the colon, the double quote (0x22) and the backslash (0x5C). A tree is plain
  when the name and every argument of every atom are plain words and every Not has a
  child. \<open>erase\<close> forgets the cached results, which a tree does not show in its text.
\<close>

definition special :: "char \<Rightarrow> bool" where
  "special c = (isspace c \<or> c \<in> set ''()[],&|:'' \<or> c = CHR 0x22 \<or> c = CHR 0x5C)"

definition plain :: "string \<Rightarrow> bool" where
  "plain s = (s \<noteq> [] \<and> list_all (\<lambda>c. \<not> special c) s)"

fun plain_tree :: "node \<Rightarrow> bool" where
  "plain_tree (ScriptNode r n a) = (plain n \<and> list_all plain a)"
| "plain_tree (NotNode r None) = False"
| "plain_tree (NotNode r (Some c)) = plain_tree c"
| "plain_tree (AndNode r cb cs) = list_all plain_tree cs"
| "plain_tree (OrNode r cb cs) = list_all plain_tree cs"


section \<open>Tokens and blanks\<close>

text \<open>
  To follow a text through the substitutions of the normalisation, the text is seen as
  a run of blanks followed by tokens, each with the number of blanks after it. A token is
  one of the five characters the substitutions look for, or a word: a non-empty string
  without white space and without those five characters.
\<close>

datatype tok = W string | LB | RB | LP | RP | CM

fun tokstr :: "tok \<Rightarrow> string" where
  "tokstr (W w) = w"
| "tokstr LB = ''[''"
| "tokstr RB = '']''"
| "tokstr LP = ''(''"
| "tokstr RP = '')''"
| "tokstr CM = '',''"

fun wf_tok :: "tok \<Rightarrow> bool" where
  "wf_tok (W w) = (w \<noteq> [] \<and> list_all (\<lambda>c. \<not> isspace c \<and> c \<notin> set ''[](),'') w)"
| "wf_tok x = True"

fun is_word :: "tok \<Rightarrow> bool" where
  "is_word (W w) = True"
| "is_word x = False"

definition sp :: "nat \<Rightarrow> string" where
  "sp n = replicate n CHR '' ''"

definition rend :: "(tok \<times> nat) list \<Rightarrow> string" where
  "rend ts = concat (map (\<lambda>(x, k). tokstr x @ sp k) ts)"

definition render :: "nat \<Rightarrow> (tok \<times> nat) list \<Rightarrow> string" where
  "render g ts = sp g @ rend ts"

text \<open>
  A substitution changes the numbers of blanks only, and the new number of blanks after a
  token depends on the token, on the token that follows (\<open>nx\<close> after the last token of
  the list) and on the old number.
\<close>

definition firsttok :: "(tok \<times> nat) list \<Rightarrow> tok option \<Rightarrow> tok option" where
  "firsttok ts nx = (case ts of [] \<Rightarrow> nx | (y, l) # r \<Rightarrow> Some y)"

fun lmapn :: "(tok \<Rightarrow> tok option \<Rightarrow> nat \<Rightarrow> nat) \<Rightarrow> tok option \<Rightarrow> (tok \<times> nat) list
                \<Rightarrow> (tok \<times> nat) list" where
  "lmapn F nx [] = []"
| "lmapn F nx ((x, k) # ts) = (x, F x (firsttok ts nx) k) # lmapn F nx ts"

text \<open>
  The substitution for the token \<open>c\<close>, which puts \<open>pre\<close> blanks before it and \<open>post\<close>
  blanks after it; the collapse of runs of blanks; the final strip; and all of them in
  the order of the source.
\<close>

definition H :: "tok \<Rightarrow> nat \<Rightarrow> nat \<Rightarrow> tok \<Rightarrow> tok option \<Rightarrow> nat \<Rightarrow> nat" where
  "H c pre post x nx k =
     (if x = c then post + (if nx = Some c then pre else 0)
      else if nx = Some c then pre else k)"

definition Hfin :: "tok \<Rightarrow> tok option \<Rightarrow> nat \<Rightarrow> nat" where
  "Hfin x nx k =
     (case nx of
        None \<Rightarrow> 0
      | Some y \<Rightarrow> min 1 (H CM 0 1 x nx (H RP 1 1 x nx (H LP 1 1 x nx (H RB 1 1 x nx (H LB 1 1 x nx k))))))"

text \<open>
  The text of a tree as tokens and blanks: \<open>GT t k\<close> is \<open>str t\<close> followed by \<open>k\<close> blanks,
  and \<open>GTs cs\<close> is the part between the brackets of an operator node with the children
  \<open>cs\<close>, up to the closing bracket. The name of an atom and its first argument, with the
  colon between them, are one word.
\<close>

definition opword :: "char \<Rightarrow> bool \<Rightarrow> string" where
  "opword a cb = (if cb then [a, a] else [a])"

fun GT :: "node \<Rightarrow> nat \<Rightarrow> (tok \<times> nat) list"
and GTs :: "node list \<Rightarrow> (tok \<times> nat) list" where
  "GT (ScriptNode r n []) k = [(LP, 0), (W n, 0), (RP, k)]"
| "GT (ScriptNode r n (a # as)) k =
     [(LP, 0), (W (n @ '':'' @ a), 0)] @ concat (map (\<lambda>b. [(CM, 0), (W b, 0)]) as) @ [(RP, k)]"
| "GT (NotNode r None) k = [(W ''!None'', k)]"
| "GT (NotNode r (Some c)) k = (W ''!'', 0) # GT c k"
| "GT (AndNode r cb cs) k =
     [(W (opword CHR ''&'' cb), 1), (LB, if cs = [] then 2 else 1)] @ GTs cs @ [(RB, k)]"
| "GT (OrNode r cb cs) k =
     [(W (opword CHR ''|'' cb), 1), (LB, if cs = [] then 2 else 1)] @ GTs cs @ [(RB, k)]"
| "GTs [] = []"
| "GTs [c] = GT c 1"
| "GTs (c # d # cs) = GT c 0 @ [(CM, 1)] @ GTs (d # cs)"

text \<open>The first and the last token of the text of a tree.\<close>

fun ftok :: "node \<Rightarrow> tok" where
  "ftok (ScriptNode r n a) = LP"
| "ftok (NotNode r None) = W ''!None''"
| "ftok (NotNode r (Some c)) = W ''!''"
| "ftok (AndNode r cb cs) = W (opword CHR ''&'' cb)"
| "ftok (OrNode r cb cs) = W (opword CHR ''|'' cb)"

fun ltok :: "node \<Rightarrow> tok" where
  "ltok (ScriptNode r n a) = RP"
| "ltok (NotNode r None) = W ''!None''"
| "ltok (NotNode r (Some c)) = ltok c"
| "ltok (AndNode r cb cs) = RB"
| "ltok (OrNode r cb cs) = RB"

text \<open>
  The normal form of the text of a tree, written out: one blank on either side of a
  bracket or parenthesis, a comma with one blank after it, and nothing between \<open>!\<close> and an
  operator.
\<close>

fun nstr :: "node \<Rightarrow> string" where
  "nstr (ScriptNode r n a) =
     ''( '' @ n @ (if a = [] then [] else '':'' @ join '', '' a) @ '' )''"
| "nstr (NotNode r None) = ''!None''"
| "nstr (NotNode r (Some c)) = ''!'' @ (if ftok c = LP then '' '' else []) @ nstr c"
| "nstr (AndNode r cb cs) =
     opword CHR ''&'' cb @ '' [ '' @ (if cs = [] then [] else join '', '' (map nstr cs) @ '' '') @ '']''"
| "nstr (OrNode r cb cs) =
     opword CHR ''|'' cb @ '' [ '' @ (if cs = [] then [] else join '', '' (map nstr cs) @ '' '') @ '']''"


section \<open>Atoms with any name and any arguments\<close>

text \<open>
  The text between the parentheses of an atom, and its cut into tokens of one character
  each: \<open>lexr s\<close> is the number of blanks at the front of \<open>s\<close> and the tokens of \<open>s\<close> with
  the blanks after each. \<open>GTc\<close> and \<open>GTcs\<close> are \<open>GT\<close> and \<open>GTs\<close> with the atoms cut in this
  way, which needs nothing of the name and the arguments except that their white space is
  made of blanks.
\<close>

definition atext :: "string \<Rightarrow> string list \<Rightarrow> string" where
  "atext n a = n @ (if a = [] then [] else '':'' @ join '','' a)"





text \<open>
  An atom is read back when \<^verbatim>\<open>_parse_script_node\<close>, on the normalised text of the atom
  alone, finds the name and the arguments of the atom. \<open>atoms_read_back t\<close> says so of every
  atom of \<open>t\<close>.
\<close>

definition reads_back :: "string \<Rightarrow> string list \<Rightarrow> bool" where
  "reads_back n a =
     (fst (parse_script_node (normalize (str (ScriptNode PyNone n a))) 0) = ScriptNode PyNone n a)"

fun atoms_read_back :: "node \<Rightarrow> bool" where
  "atoms_read_back (ScriptNode r n a) = reads_back n a"
| "atoms_read_back (NotNode r None) = True"
| "atoms_read_back (NotNode r (Some c)) = atoms_read_back c"
| "atoms_read_back (AndNode r cb cs) = list_all atoms_read_back cs"
| "atoms_read_back (OrNode r cb cs) = list_all atoms_read_back cs"

text \<open>
  The text of a Not without a child ends in the word \<open>None\<close>, which the parser skips
  together with what follows it up to the next character of \<^verbatim>\<open>"()[],&|"\<close>. \<open>trail t post\<close>
  is the number of characters of \<open>post\<close>, the text after the text of \<open>t\<close>, that the parser
  takes in this way.
\<close>

fun ends_none :: "node \<Rightarrow> bool" where
  "ends_none (NotNode r None) = True"
| "ends_none (NotNode r (Some c)) = ends_none c"
| "ends_none t = False"

definition trail :: "node \<Rightarrow> string \<Rightarrow> nat" where
  "trail t post =
     (if ends_none t then length (takeWhile (\<lambda>c. c \<notin> set ''()[],&|'') post) else 0)"

text \<open>
  White space made of blanks only, in a string and in the atoms of a tree.
\<close>

definition blanks_only :: "string \<Rightarrow> bool" where
  "blanks_only s = list_all (\<lambda>c. isspace c \<longrightarrow> c = CHR '' '') s"


text \<open>
  What \<^verbatim>\<open>_parse_script_node\<close> makes of the text between an opening parenthesis and the
  first closing parenthesis after it.
\<close>

definition read_body :: "string \<Rightarrow> node" where
  "read_body body =
     (case py_find body '':'' 0 of
        None \<Rightarrow> ScriptNode PyNone (strip body) []
      | Some co \<Rightarrow>
          ScriptNode PyNone (strip (take co body)) (parse_args (strip (drop (co + 1) body))))"

text \<open>
  \<open>clean t\<close>: in the atoms of \<open>t\<close> the white space is made of blanks and there is no closing
  parenthesis, as in every tree that the parser returns. \<open>reread t\<close> is \<open>t\<close> with every atom
  replaced by what \<^verbatim>\<open>_parse_script_node\<close> finds in the normalised text of that atom alone,
  and with empty results.
\<close>

fun clean :: "node \<Rightarrow> bool" where
  "clean (ScriptNode r n a) = (blanks_only (atext n a) \<and> CHR '')'' \<notin> set (atext n a))"
| "clean (NotNode r None) = True"
| "clean (NotNode r (Some c)) = clean c"
| "clean (AndNode r cb cs) = list_all clean cs"
| "clean (OrNode r cb cs) = list_all clean cs"


text \<open>
  Names for the proofs: the four operator words; the tokens that are a single character of
  syntax; what \<^verbatim>\<open>_parse_script_node\<close> does with the last argument when its loop has ended; and
  the characters at which \<^verbatim>\<open>_parse_expression\<close> begins a node.
\<close>

definition is_op :: "string \<Rightarrow> bool" where
  "is_op op = (op = ''&&'' \<or> op = ''||'' \<or> op = ''&'' \<or> op = ''|'')"

definition is_struct :: "tok \<Rightarrow> bool" where
  "is_struct c = (\<not> is_word c)"

definition finish :: "string list \<times> string \<Rightarrow> string list" where
  "finish r = (case r of (acc, cur) \<Rightarrow> if cur \<noteq> [] then acc @ [strip_quotes cur] else acc)"

definition starter :: "char \<Rightarrow> bool" where
  "starter c = (c = CHR ''('' \<or> c = CHR ''!'' \<or> c = CHR ''&'' \<or> c = CHR ''|'')"

section \<open>The loops of the operator nodes\<close>

lemma and_loop_all:
  "eval_each ex vh sh cs w = (bs, cs', w') \<Longrightarrow>
   and_loop ex vh sh False cs res w = (res \<and> list_all id bs, cs', w')"
  by (induction cs arbitrary: w res bs cs' w') (auto split: prod.splits)

lemma or_loop_all:
  "eval_each ex vh sh cs w = (bs, cs', w') \<Longrightarrow>
   or_loop ex vh sh False cs res w = (res \<or> list_ex id bs, cs', w')"
  by (induction cs arbitrary: w res bs cs' w') (auto split: prod.splits)

lemma and_loop_true:
  "eval_each ex vh sh cs w = (bs, cs', w') \<Longrightarrow> list_all id bs \<Longrightarrow>
   and_loop ex vh sh cb cs res w = (res, cs', w')"
  by (induction cs arbitrary: w res bs cs' w') (auto split: prod.splits)

lemma or_loop_false:
  "eval_each ex vh sh cs w = (bs, cs', w') \<Longrightarrow> list_all Not bs \<Longrightarrow>
   or_loop ex vh sh cb cs res w = (res, cs', w')"
  by (induction cs arbitrary: w res bs cs' w') (auto split: prod.splits)

lemma and_loop_stop:
  "eval_each ex vh sh pre w = (bs, pre', w1) \<Longrightarrow> list_all id bs \<Longrightarrow>
   evaluate ex vh sh c w1 = (False, c', w2) \<Longrightarrow>
   and_loop ex vh sh True (pre @ c # post) res w = (False, pre' @ c' # post, w2)"
  by (induction pre arbitrary: w res bs pre' w1) (auto split: prod.splits)

lemma or_loop_stop:
  "eval_each ex vh sh pre w = (bs, pre', w1) \<Longrightarrow> list_all Not bs \<Longrightarrow>
   evaluate ex vh sh c w1 = (True, c', w2) \<Longrightarrow>
   or_loop ex vh sh True (pre @ c # post) res w = (True, pre' @ c' # post, w2)"
  by (induction pre arbitrary: w res bs pre' w1) (auto split: prod.splits)

lemma and_loop_result:
  "fst (and_loop ex vh sh cb cs res w) \<Longrightarrow>
   res \<and> list_all id (fst (eval_each ex vh sh cs w))"
proof (induction cs arbitrary: w res)
  case Nil
  then show ?case by simp
next
  case (Cons c cs)
  obtain b c' w1 where e: "evaluate ex vh sh c w = (b, c', w1)"
    by (cases "evaluate ex vh sh c w") auto
  show ?case
  proof (cases b)
    case True
    with Cons.prems e have "fst (and_loop ex vh sh cb cs res w1)"
      by (simp split: prod.splits)
    from Cons.IH [OF this] True e show ?thesis
      by (auto split: prod.splits)
  next
    case False
    show ?thesis
    proof (cases cb)
      case True
      with Cons.prems e False show ?thesis by simp
    next
      case nb: False
      with Cons.prems e False have "fst (and_loop ex vh sh cb cs False w1)"
        by (simp split: prod.splits)
      from Cons.IH [OF this] show ?thesis by simp
    qed
  qed
qed

lemma or_loop_result:
  "\<not> fst (or_loop ex vh sh cb cs res w) \<Longrightarrow>
   \<not> res \<and> list_all Not (fst (eval_each ex vh sh cs w))"
proof (induction cs arbitrary: w res)
  case Nil
  then show ?case by simp
next
  case (Cons c cs)
  obtain b c' w1 where e: "evaluate ex vh sh c w = (b, c', w1)"
    by (cases "evaluate ex vh sh c w") auto
  show ?case
  proof (cases b)
    case False
    with Cons.prems e have "\<not> fst (or_loop ex vh sh cb cs res w1)"
      by (simp split: prod.splits)
    from Cons.IH [OF this] False e show ?thesis
      by (auto split: prod.splits)
  next
    case True
    show ?thesis
    proof (cases cb)
      case True
      with Cons.prems e \<open>b\<close> show ?thesis by simp
    next
      case nb: False
      with Cons.prems e True have "\<not> fst (or_loop ex vh sh cb cs True w1)"
        by (simp split: prod.splits)
      from Cons.IH [OF this] show ?thesis by simp
    qed
  qed
qed

section \<open>Evaluation of the four kinds of node\<close>

text \<open>
  Claim C2. Let \<open>eval_each\<close> evaluate the children from left to right, each in the world
  its predecessor left. A short-circuiting And whose children all evaluate to true returns
  true, with every child evaluated; when the children \<open>pre\<close> evaluate to true and the next
  child \<open>c\<close> evaluates to false, it returns false in the world \<open>c\<close> left, and the children
  \<open>post\<close> after \<open>c\<close> are returned untouched, whatever they are: they are never evaluated.
  It returns true only if every child evaluates to true. The short-circuiting Or is the
  mirror image. The variants without short circuit evaluate every child and return the
  conjunction (And) or the disjunction (Or) of the results.
\<close>

theorem C2_and_or_evaluate:
  "(eval_each ex vh sh cs w = (bs, cs', w') \<longrightarrow>
      evaluate ex vh sh (AndNode r False cs) w
        = (list_all id bs, AndNode (PyBool (list_all id bs)) False cs', w')
    \<and> evaluate ex vh sh (OrNode r False cs) w
        = (list_ex id bs, OrNode (PyBool (list_ex id bs)) False cs', w')
    \<and> (list_all id bs \<longrightarrow>
          evaluate ex vh sh (AndNode r True cs) w = (True, AndNode (PyBool True) True cs', w'))
    \<and> (list_all Not bs \<longrightarrow>
          evaluate ex vh sh (OrNode r True cs) w = (False, OrNode (PyBool False) True cs', w')))
   \<and> (eval_each ex vh sh pre w = (ps, pre', wp) \<and> list_all id ps
        \<and> evaluate ex vh sh c wp = (False, c', wc) \<longrightarrow>
          evaluate ex vh sh (AndNode r True (pre @ c # post)) w
            = (False, AndNode (PyBool False) True (pre' @ c' # post), wc))
   \<and> (eval_each ex vh sh pre w = (ps, pre', wp) \<and> list_all Not ps
        \<and> evaluate ex vh sh c wp = (True, c', wc) \<longrightarrow>
          evaluate ex vh sh (OrNode r True (pre @ c # post)) w
            = (True, OrNode (PyBool True) True (pre' @ c' # post), wc))
   \<and> (fst (evaluate ex vh sh (AndNode r True cs) w) \<longrightarrow>
          list_all id (fst (eval_each ex vh sh cs w)))
   \<and> (\<not> fst (evaluate ex vh sh (OrNode r True cs) w) \<longrightarrow>
          list_all Not (fst (eval_each ex vh sh cs w)))"
proof (intro conjI impI)
  assume e: "eval_each ex vh sh cs w = (bs, cs', w')"
  show "evaluate ex vh sh (AndNode r False cs) w
          = (list_all id bs, AndNode (PyBool (list_all id bs)) False cs', w')"
    by (simp add: and_loop_all [OF e])
  show "evaluate ex vh sh (OrNode r False cs) w
          = (list_ex id bs, OrNode (PyBool (list_ex id bs)) False cs', w')"
    by (simp add: or_loop_all [OF e])
  show "evaluate ex vh sh (AndNode r True cs) w = (True, AndNode (PyBool True) True cs', w')"
    if "list_all id bs"
    by (simp add: and_loop_true [OF e that])
  show "evaluate ex vh sh (OrNode r True cs) w = (False, OrNode (PyBool False) True cs', w')"
    if "list_all Not bs"
    by (simp add: or_loop_false [OF e that])
next
  assume "eval_each ex vh sh pre w = (ps, pre', wp) \<and> list_all id ps
            \<and> evaluate ex vh sh c wp = (False, c', wc)"
  then show "evaluate ex vh sh (AndNode r True (pre @ c # post)) w
               = (False, AndNode (PyBool False) True (pre' @ c' # post), wc)"
    by (simp add: and_loop_stop)
next
  assume "eval_each ex vh sh pre w = (ps, pre', wp) \<and> list_all Not ps
            \<and> evaluate ex vh sh c wp = (True, c', wc)"
  then show "evaluate ex vh sh (OrNode r True (pre @ c # post)) w
               = (True, OrNode (PyBool True) True (pre' @ c' # post), wc)"
    by (simp add: or_loop_stop)
next
  assume "fst (evaluate ex vh sh (AndNode r True cs) w)"
  then have "fst (and_loop ex vh sh True cs True w)"
    by (simp split: prod.splits)
  then show "list_all id (fst (eval_each ex vh sh cs w))"
    using and_loop_result by blast
next
  assume "\<not> fst (evaluate ex vh sh (OrNode r True cs) w)"
  then have "\<not> fst (or_loop ex vh sh True cs False w)"
    by (simp split: prod.splits)
  then show "list_all Not (fst (eval_each ex vh sh cs w))"
    using or_loop_result by blast
qed

text \<open>
  The claim at a concrete input. The task \<open>A\<close> succeeds and every other task fails; the
  state counts the invocations. In \<open>&& [ (A), (B), (A) ]\<close> the third child is not invoked;
  in \<open>|| [ (B), (A), (B) ]\<close> the third child is not invoked; \<open>&& [ (A), (A) ]\<close> is true and
  \<open>|| [ (B), (B) ]\<close> is false after both children ran; \<open>& [ (B), (A) ]\<close> and
  \<open>| [ (A), (B) ]\<close> run both children.
\<close>

lemma evaluate_atom:
  "evaluate status_A vh sh (atom n) w
     = (n = ''A'', ran n, w\<lparr>st := Suc (st w), events := events w @ [Invoke n []]\<rparr>)"
  by (simp add: atom_def ran_def status_A_def)

theorem C2_and_or_evaluate_witness:
  "evaluate status_A False None (AndNode PyNone True [atom ''A'', atom ''B'', atom ''A''])
       \<lparr>st = 0, events = []\<rparr>
     = (False, AndNode (PyBool False) True [ran ''A'', ran ''B'', atom ''A''],
        \<lparr>st = 2, events = [Invoke ''A'' [], Invoke ''B'' []]\<rparr>)
   \<and> evaluate status_A False None (OrNode PyNone True [atom ''B'', atom ''A'', atom ''B''])
       \<lparr>st = 0, events = []\<rparr>
     = (True, OrNode (PyBool True) True [ran ''B'', ran ''A'', atom ''B''],
        \<lparr>st = 2, events = [Invoke ''B'' [], Invoke ''A'' []]\<rparr>)
   \<and> evaluate status_A False None (AndNode PyNone True [atom ''A'', atom ''A''])
       \<lparr>st = 0, events = []\<rparr>
     = (True, AndNode (PyBool True) True [ran ''A'', ran ''A''],
        \<lparr>st = 2, events = [Invoke ''A'' [], Invoke ''A'' []]\<rparr>)
   \<and> evaluate status_A False None (OrNode PyNone True [atom ''B'', atom ''B''])
       \<lparr>st = 0, events = []\<rparr>
     = (False, OrNode (PyBool False) True [ran ''B'', ran ''B''],
        \<lparr>st = 2, events = [Invoke ''B'' [], Invoke ''B'' []]\<rparr>)
   \<and> evaluate status_A False None (AndNode PyNone False [atom ''B'', atom ''A''])
       \<lparr>st = 0, events = []\<rparr>
     = (False, AndNode (PyBool False) False [ran ''B'', ran ''A''],
        \<lparr>st = 2, events = [Invoke ''B'' [], Invoke ''A'' []]\<rparr>)
   \<and> evaluate status_A False None (OrNode PyNone False [atom ''A'', atom ''B''])
       \<lparr>st = 0, events = []\<rparr>
     = (True, OrNode (PyBool True) False [ran ''A'', ran ''B''],
        \<lparr>st = 2, events = [Invoke ''A'' [], Invoke ''B'' []]\<rparr>)"
proof -
  let ?w = "\<lparr>st = 0::nat, events = []\<rparr>"
  let ?wA = "\<lparr>st = Suc 0, events = [Invoke ''A'' []]\<rparr>"
  let ?wB = "\<lparr>st = Suc 0, events = [Invoke ''B'' []]\<rparr>"
  have pA: "eval_each status_A False None [atom ''A''] ?w = ([True], [ran ''A''], ?wA)"
    by (simp add: evaluate_atom)
  have pB: "eval_each status_A False None [atom ''B''] ?w = ([False], [ran ''B''], ?wB)"
    by (simp add: evaluate_atom)
  have sB: "evaluate status_A False None (atom ''B'') ?wA
              = (False, ran ''B'', \<lparr>st = 2, events = [Invoke ''A'' [], Invoke ''B'' []]\<rparr>)"
    by (simp add: evaluate_atom numeral_2_eq_2)
  have sA: "evaluate status_A False None (atom ''A'') ?wB
              = (True, ran ''A'', \<lparr>st = 2, events = [Invoke ''B'' [], Invoke ''A'' []]\<rparr>)"
    by (simp add: evaluate_atom numeral_2_eq_2)
  have AA: "eval_each status_A False None [atom ''A'', atom ''A''] ?w
              = ([True, True], [ran ''A'', ran ''A''],
                 \<lparr>st = 2, events = [Invoke ''A'' [], Invoke ''A'' []]\<rparr>)"
    by (simp add: evaluate_atom numeral_2_eq_2)
  have BB: "eval_each status_A False None [atom ''B'', atom ''B''] ?w
              = ([False, False], [ran ''B'', ran ''B''],
                 \<lparr>st = 2, events = [Invoke ''B'' [], Invoke ''B'' []]\<rparr>)"
    by (simp add: evaluate_atom numeral_2_eq_2)
  have BA: "eval_each status_A False None [atom ''B'', atom ''A''] ?w
              = ([False, True], [ran ''B'', ran ''A''],
                 \<lparr>st = 2, events = [Invoke ''B'' [], Invoke ''A'' []]\<rparr>)"
    by (simp add: evaluate_atom numeral_2_eq_2)
  have AB: "eval_each status_A False None [atom ''A'', atom ''B''] ?w
              = ([True, False], [ran ''A'', ran ''B''],
                 \<lparr>st = 2, events = [Invoke ''A'' [], Invoke ''B'' []]\<rparr>)"
    by (simp add: evaluate_atom numeral_2_eq_2)
  note stop = C2_and_or_evaluate [where ex = status_A and vh = False and sh = None
      and w = ?w and r = PyNone and cs = "[]" and bs = "[]" and cs' = "[]" and w' = ?w]
  note full = C2_and_or_evaluate [where ex = status_A and vh = False and sh = None
      and w = ?w and r = PyNone and pre = "[]" and ps = "[]" and pre' = "[]" and wp = ?w
      and c = "atom ''B''" and c' = "ran ''B''" and wc = ?wB and post = "[]"]
  show ?thesis
    using stop [where pre = "[atom ''A'']" and ps = "[True]" and pre' = "[ran ''A'']"
                  and wp = ?wA and c = "atom ''B''" and c' = "ran ''B''"
                  and wc = "\<lparr>st = 2, events = [Invoke ''A'' [], Invoke ''B'' []]\<rparr>"
                  and post = "[atom ''A'']"]
          stop [where pre = "[atom ''B'']" and ps = "[False]" and pre' = "[ran ''B'']"
                  and wp = ?wB and c = "atom ''A''" and c' = "ran ''A''"
                  and wc = "\<lparr>st = 2, events = [Invoke ''B'' [], Invoke ''A'' []]\<rparr>"
                  and post = "[atom ''B'']"]
          full [where cs = "[atom ''A'', atom ''A'']" and bs = "[True, True]"
                  and cs' = "[ran ''A'', ran ''A'']"
                  and w' = "\<lparr>st = 2, events = [Invoke ''A'' [], Invoke ''A'' []]\<rparr>"]
          full [where cs = "[atom ''B'', atom ''B'']" and bs = "[False, False]"
                  and cs' = "[ran ''B'', ran ''B'']"
                  and w' = "\<lparr>st = 2, events = [Invoke ''B'' [], Invoke ''B'' []]\<rparr>"]
          full [where cs = "[atom ''B'', atom ''A'']" and bs = "[False, True]"
                  and cs' = "[ran ''B'', ran ''A'']"
                  and w' = "\<lparr>st = 2, events = [Invoke ''B'' [], Invoke ''A'' []]\<rparr>"]
          full [where cs = "[atom ''A'', atom ''B'']" and bs = "[True, False]"
                  and cs' = "[ran ''A'', ran ''B'']"
                  and w' = "\<lparr>st = 2, events = [Invoke ''A'' [], Invoke ''B'' []]\<rparr>"]
          pA pB sA sB AA BB BA AB
    by simp
qed

text \<open>
  Claim C3, as the source has it. \<^verbatim>\<open>ScriptNode.evaluate\<close> calls the executor once, with
  the name and the arguments of the node: the trace grows by that one invocation and the
  state is the one this call returned. The boolean returned is true exactly when the
  status code is 0. What the node stores in \<^verbatim>\<open>self.result\<close> is the status code itself,
  an integer, and not the boolean.
\<close>

theorem C3_atom_evaluate:
  "fst (evaluate ex vh sh (ScriptNode r n a) w)
     = (fst (ex n a vh (expected_hash_of vh sh n) (st w)) = 0)
   \<and> fst (snd (evaluate ex vh sh (ScriptNode r n a) w))
     = ScriptNode (PyInt (fst (ex n a vh (expected_hash_of vh sh n) (st w)))) n a
   \<and> snd (snd (evaluate ex vh sh (ScriptNode r n a) w))
     = w\<lparr>st := snd (ex n a vh (expected_hash_of vh sh n) (st w)),
          events := events w @ [Invoke n a]\<rparr>"
  by (simp split: prod.splits)

text \<open>
  The claim as it was stated says that the node stores the boolean. For a task that
  returns the status 0 the boolean is \<open>True\<close> and the stored value is the integer 0.
\<close>

theorem C3_atom_stores_boolean_counterexample:
  "fst (evaluate status_A False None (ScriptNode PyNone ''A'' []) \<lparr>st = 0, events = []\<rparr>) = True
   \<and> result (fst (snd (evaluate status_A False None (ScriptNode PyNone ''A'' [])
                          \<lparr>st = 0, events = []\<rparr>))) = PyInt 0
   \<and> result (fst (snd (evaluate status_A False None (ScriptNode PyNone ''A'' [])
                          \<lparr>st = 0, events = []\<rparr>)))
       \<noteq> PyBool (fst (evaluate status_A False None (ScriptNode PyNone ''A'' [])
                          \<lparr>st = 0, events = []\<rparr>))"
  by (simp add: status_A_def)

text \<open>
  Claim C4. A \<^verbatim>\<open>NotNode\<close> with a child evaluates the child, in the same world, and
  returns the negation of the child's boolean; the world afterwards is the one the child's
  evaluation left, so the invocations of the child take place. A \<^verbatim>\<open>NotNode\<close> without a
  child returns false and leaves the world, and the node, as they are.
\<close>

theorem C4_not_evaluate:
  "evaluate ex vh sh (NotNode r (Some c)) w
     = (\<not> fst (evaluate ex vh sh c w),
        NotNode (PyBool (\<not> fst (evaluate ex vh sh c w))) (Some (fst (snd (evaluate ex vh sh c w)))),
        snd (snd (evaluate ex vh sh c w)))
   \<and> evaluate ex vh sh (NotNode r None) w = (False, NotNode r None, w)"
  by (simp add: Let_def split: prod.splits)

text \<open>
  Claim C9. An And node without children evaluates to true and an Or node without children
  to false, with or without short circuit, and the world is unchanged: no task is invoked.
\<close>

theorem C9_empty_and_or:
  "evaluate ex vh sh (AndNode r cb []) w = (True, AndNode (PyBool True) cb [], w)
   \<and> evaluate ex vh sh (OrNode r cb []) w = (False, OrNode (PyBool False) cb [], w)"
  by simp

section \<open>The fingerprint check\<close>

text \<open>
  Claim C10. \<^verbatim>\<open>verify_directory_hash\<close> returns true and leaves the world as it is (no
  fingerprint is computed) when the expected hash is \<^verbatim>\<open>None\<close> or the empty string. For
  any other expected hash it computes the fingerprint once and returns whether it equals
  the expected hash; a fingerprint that could not be computed (\<^verbatim>\<open>None\<close>) is not equal.
\<close>

theorem C10_verify_directory_hash:
  "verify_directory_hash sys p None ex w = (True, w)
   \<and> verify_directory_hash sys p (Some []) ex w = (True, w)
   \<and> verify_directory_hash sys p (Some (c # cs)) ex w
       = (calculate_directory_hash sys (st w) p ex = Some (c # cs),
          w\<lparr>events := events w @ [Fingerprint p]\<rparr>)"
  by (simp add: verify_directory_hash_def)

section \<open>Pre-flight verification\<close>

lemma verify_loop_pass:
  "list_all (passes sys h (st w)) ns \<Longrightarrow>
   verify_loop sys h ns w
     = (True, w\<lparr>events := events w @ concat (map (check_events sys h (st w)) ns)\<rparr>)"
proof (induction ns arbitrary: w)
  case Nil
  show ?case by simp
next
  case (Cons n ns)
  from Cons.prems obtain e where
    d: "isdir sys (st w) (script_folder sys n)" and r: "dict_get h n = Some e" and
    c: "calculate_directory_hash sys (st w) (script_folder sys n) (Some exclude_dirs) = Some e"
    by (auto simp: passes_def split: option.splits)
  let ?w2 = "w\<lparr>events := events w @ [DirCheck (script_folder sys n), Fingerprint (script_folder sys n)]\<rparr>"
  from Cons.prems have "list_all (passes sys h (st ?w2)) ns" by simp
  from Cons.IH [OF this] d r c show ?case
    by (simp add: check_events_def Let_def)
qed

lemma verify_loop_fail:
  "list_all (passes sys h (st w)) pre \<Longrightarrow> \<not> passes sys h (st w) bad \<Longrightarrow>
   verify_loop sys h (pre @ bad # post) w
     = (False, w\<lparr>events := events w @ concat (map (check_events sys h (st w)) (pre @ [bad]))\<rparr>)"
proof (induction pre arbitrary: w)
  case Nil
  then show ?case
    by (auto simp: passes_def check_events_def Let_def split: option.splits)
next
  case (Cons n ns)
  from Cons.prems obtain e where
    d: "isdir sys (st w) (script_folder sys n)" and r: "dict_get h n = Some e" and
    c: "calculate_directory_hash sys (st w) (script_folder sys n) (Some exclude_dirs) = Some e"
    by (auto simp: passes_def split: option.splits)
  let ?w2 = "w\<lparr>events := events w @ [DirCheck (script_folder sys n), Fingerprint (script_folder sys n)]\<rparr>"
  from Cons.prems have "list_all (passes sys h (st ?w2)) ns" and "\<not> passes sys h (st ?w2) bad"
    by simp_all
  from Cons.IH [OF this] d r c show ?case
    by (simp add: check_events_def Let_def)
qed

lemma check_events_no_invoke: "filter is_Invoke (check_events sys h s n) = []"
  by (simp add: check_events_def)

lemma checks_no_invoke: "filter is_Invoke (concat (map (check_events sys h s) ns)) = []"
  by (induction ns) (simp_all add: check_events_no_invoke)

lemma first_failure:
  assumes "n \<in> set ns" and "\<not> P n"
  shows "length (takeWhile P ns) < length ns"
    and "\<not> P (ns ! length (takeWhile P ns))"
    and "ns = takeWhile P ns @ ns ! length (takeWhile P ns) # drop (Suc (length (takeWhile P ns))) ns"
    and "take (Suc (length (takeWhile P ns))) ns = takeWhile P ns @ [ns ! length (takeWhile P ns)]"
proof -
  have "takeWhile P ns \<noteq> ns"
    using assms by (auto simp: takeWhile_eq_all_conv)
  then show k: "length (takeWhile P ns) < length ns"
    using length_takeWhile_le [of P ns] takeWhile_eq_take [of P ns] by (cases "length (takeWhile P ns) = length ns") auto
  then show "\<not> P (ns ! length (takeWhile P ns))"
    by (rule nth_length_takeWhile)
  have t: "take (length (takeWhile P ns)) ns = takeWhile P ns"
    using takeWhile_eq_take [of P ns] by simp
  show "ns = takeWhile P ns @ ns ! length (takeWhile P ns) # drop (Suc (length (takeWhile P ns))) ns"
    using id_take_nth_drop [OF k] t by simp
  show "take (Suc (length (takeWhile P ns))) ns = takeWhile P ns @ [ns ! length (takeWhile P ns)]"
    using take_Suc_conv_app_nth [OF k] t by simp
qed

text \<open>
  The collector of the source finds the names of the atoms of the tree, all of them and
  nothing else, and a task that the evaluation invokes is an atom of the tree.
\<close>

lemma collect_referenced:
  "m \<in> set (collect_script_names_from_tree t) \<longleftrightarrow> referenced m t"
  by (induction t rule: collect_script_names_from_tree.induct) (auto simp: list_ex_iff)

lemma invoked_referenced:
  "Invoke m b \<in> set (events (snd (snd (evaluate ex vh sh t w))))
     \<longrightarrow> Invoke m b \<in> set (events w) \<or> referenced m t"
  "Invoke m b \<in> set (events (snd (snd (and_loop ex vh sh cb cs res w))))
     \<longrightarrow> Invoke m b \<in> set (events w) \<or> list_ex (referenced m) cs"
  "Invoke m b \<in> set (events (snd (snd (or_loop ex vh sh cb cs res w))))
     \<longrightarrow> Invoke m b \<in> set (events w) \<or> list_ex (referenced m) cs"
  by (induction ex vh sh t w and ex vh sh cb cs res w and ex vh sh cb cs res w
        rule: evaluate_and_loop_or_loop.induct)
     (auto simp: Let_def split: prod.splits if_splits)

text \<open>
  Claim C1. Let some task referenced in the tree fail one of the three checks (\<open>passes\<close>
  is false for a missing directory, for a name without a registry entry, and for a
  fingerprint that differs), and let \<open>list_set\<close>, the order in which the runtime lists a
  set, list the elements of its argument. Then the list of names that the loop visits has
  a first failing name, at index \<open>k\<close>; the run ends with exit code 1; the state is
  untouched, and the trace has grown by the checks of the names up to index \<open>k\<close> and by
  nothing else: the names after it are not checked, and the trace holds no invocation
  that it did not hold before.
\<close>

theorem C1_preflight_fail_fast:
  assumes "\<And>xs. set (list_set xs) = set xs"
    and "referenced n t"
    and "\<not> passes sys h (st w) n"
  shows "length (takeWhile (passes sys h (st w)) (list_set (collect_script_names_from_tree t)))
           < length (list_set (collect_script_names_from_tree t))
     \<and> \<not> passes sys h (st w)
           (list_set (collect_script_names_from_tree t)
              ! length (takeWhile (passes sys h (st w)) (list_set (collect_script_names_from_tree t))))
     \<and> main_after_parse sys ex list_set h t w
         = (1, w\<lparr>events := events w @ concat (map (check_events sys h (st w))
              (take (Suc (length (takeWhile (passes sys h (st w))
                                    (list_set (collect_script_names_from_tree t)))))
                    (list_set (collect_script_names_from_tree t))))\<rparr>)
     \<and> filter is_Invoke (events (snd (main_after_parse sys ex list_set h t w)))
         = filter is_Invoke (events w)"
proof -
  let ?P = "passes sys h (st w)"
  let ?ns = "list_set (collect_script_names_from_tree t)"
  let ?k = "length (takeWhile ?P ?ns)"
  from assms(1,2) have n: "n \<in> set ?ns"
    by (simp add: collect_referenced)
  note ff = first_failure [where P = ?P and ns = ?ns and n = n, OF n assms(3)]
  have pre: "list_all ?P (takeWhile ?P ?ns)"
    by (auto simp: list_all_iff dest: set_takeWhileD)
  have "verify_loop sys h ?ns w
          = verify_loop sys h (takeWhile ?P ?ns @ ?ns ! ?k # drop (Suc ?k) ?ns) w"
    using ff(3) by simp
  also have "\<dots> = (False, w\<lparr>events := events w @ concat (map (check_events sys h (st w))
                                   (takeWhile ?P ?ns @ [?ns ! ?k]))\<rparr>)"
    by (rule verify_loop_fail [OF pre ff(2)])
  finally have v: "verify_loop sys h ?ns w
          = (False, w\<lparr>events := events w @ concat (map (check_events sys h (st w))
                                   (take (Suc ?k) ?ns))\<rparr>)"
    using ff(4) by simp
  then have m: "main_after_parse sys ex list_set h t w
          = (1, w\<lparr>events := events w @ concat (map (check_events sys h (st w))
                                   (take (Suc ?k) ?ns))\<rparr>)"
    by (simp add: main_after_parse_def)
  have "filter is_Invoke (events (snd (main_after_parse sys ex list_set h t w)))
          = filter is_Invoke (events w)"
    unfolding m using checks_no_invoke [of sys h "st w" "take (Suc ?k) ?ns"] by simp
  with ff(1) ff(2) m show ?thesis by blast
qed

text \<open>
  The claim at a concrete input: the tree of \<open>&& [ (A), (C), (B) ]\<close>, with a registry
  that has no entry for \<open>C\<close>, although the directory of \<open>C\<close> exists. The absent entry is
  a failure: the run ends with exit code 1 after the directory test of \<open>C\<close>; \<open>B\<close> is
  never looked at and nothing is invoked.
\<close>

theorem C1_preflight_fail_fast_witness:
  "main_after_parse sys0 status_A remdups good_hashes
       (AndNode PyNone True [atom ''A'', atom ''C'', atom ''B'']) \<lparr>st = 0, events = []\<rparr>
     = (1, \<lparr>st = 0, events = [DirCheck ''/A'', Fingerprint ''/A'', DirCheck ''/C'']\<rparr>)"
proof -
  let ?t = "AndNode PyNone True [atom ''A'', atom ''C'', atom ''B'']"
  let ?w = "\<lparr>st = 0::nat, events = []\<rparr>"
  have names: "collect_script_names_from_tree ?t = [''A'', ''C'', ''B'']"
    by (simp add: atom_def)
  have h1: "set (remdups xs) = set xs" for xs :: "string list"
    by simp
  have h2: "referenced ''C'' ?t"
    by (simp add: atom_def)
  have h3: "\<not> passes sys0 good_hashes (st ?w) ''C''"
    by (simp add: passes_def good_hashes_def dict_get_def)
  have pA: "passes sys0 good_hashes 0 ''A''"
    by (simp add: passes_def good_hashes_def dict_get_def sys0_def)
  have pC: "\<not> passes sys0 good_hashes 0 ''C''"
    using h3 by simp
  have ev: "check_events sys0 good_hashes 0 ''A'' = [DirCheck ''/A'', Fingerprint ''/A'']"
       "check_events sys0 good_hashes 0 ''C'' = [DirCheck ''/C'']"
    by (simp_all add: check_events_def good_hashes_def dict_get_def sys0_def)
  show ?thesis
    using C1_preflight_fail_fast [where list_set = remdups and t = ?t and n = "''C''"
        and sys = sys0 and h = good_hashes and w = ?w and ex = status_A, OF h1 h2 h3]
    unfolding names by (simp add: pA pC ev)
qed

section \<open>The driver's exit code\<close>

lemma verify_loop_no_invoke:
  "filter is_Invoke (events (snd (verify_loop sys h ns w))) = filter is_Invoke (events w)
   \<and> st (snd (verify_loop sys h ns w)) = st w"
  by (induction ns arbitrary: w) (auto simp: Let_def split: option.splits)

text \<open>
  Claim C5. Whenever the parser returns: a run whose parse gives \<^verbatim>\<open>None\<close> exits with
  code 1 in the world it started in; a run whose pre-flight verification fails exits with
  code 1 in the world the verification left, in which no task was invoked and the state
  is the initial one; any other run evaluates the tree after the verification and exits
  with 0 when the tree is true and with 1 when it is false. A run with fewer than two
  command-line arguments exits with code 1 at once.
\<close>

theorem C5_driver_exit_code:
  "(length argv < 3 \<longrightarrow> main sys ex list_set h fuel argv w = Some (1, w))
   \<and> (3 \<le> length argv \<and> parse_logical_expression fuel (argv ! 2) = Some None \<longrightarrow>
        main sys ex list_set h fuel argv w = Some (1, w))
   \<and> (3 \<le> length argv \<and> parse_logical_expression fuel (argv ! 2) = Some (Some t)
        \<and> \<not> fst (verify_loop sys h (list_set (collect_script_names_from_tree t)) w) \<longrightarrow>
        main sys ex list_set h fuel argv w
          = Some (1, snd (verify_loop sys h (list_set (collect_script_names_from_tree t)) w))
        \<and> filter is_Invoke
             (events (snd (verify_loop sys h (list_set (collect_script_names_from_tree t)) w)))
          = filter is_Invoke (events w)
        \<and> st (snd (verify_loop sys h (list_set (collect_script_names_from_tree t)) w)) = st w)
   \<and> (3 \<le> length argv \<and> parse_logical_expression fuel (argv ! 2) = Some (Some t)
        \<and> fst (verify_loop sys h (list_set (collect_script_names_from_tree t)) w) \<longrightarrow>
        main sys ex list_set h fuel argv w
          = Some (if fst (evaluate ex False (Some h) t
                            (snd (verify_loop sys h (list_set (collect_script_names_from_tree t)) w)))
                  then 0 else 1,
                  snd (snd (evaluate ex False (Some h) t
                            (snd (verify_loop sys h (list_set (collect_script_names_from_tree t)) w))))))"
  by (auto simp: main_def main_after_parse_def Let_def verify_loop_no_invoke
           split: prod.splits)

text \<open>
  The claim at concrete inputs, in the file system \<open>sys0\<close> with the registry
  \<open>good_hashes\<close>: no expression at all; the expression \<open>x\<close>, which does not parse; \<open>(C)\<close>,
  a task that is not registered; \<open>(A)\<close>, which is true; and \<open>!(A)\<close>, which is false.
\<close>

lemma parse_examples:
  "parse_logical_expression 5 ''x'' = Some None"
  "parse_logical_expression 5 ''(C)'' = Some (Some (ScriptNode PyNone ''C'' []))"
  "parse_logical_expression 5 ''(A)'' = Some (Some (ScriptNode PyNone ''A'' []))"
  "parse_logical_expression 5 ''!(A)'' = Some (Some (NotNode PyNone (Some (ScriptNode PyNone ''A'' []))))"
  by code_simp+

theorem C5_driver_exit_code_witness:
  "main sys0 status_A remdups good_hashes 5 [''foo.py''] \<lparr>st = 0, events = []\<rparr>
     = Some (1, \<lparr>st = 0, events = []\<rparr>)
   \<and> main sys0 status_A remdups good_hashes 5 [''foo.py'', ''7'', ''x''] \<lparr>st = 0, events = []\<rparr>
     = Some (1, \<lparr>st = 0, events = []\<rparr>)
   \<and> main sys0 status_A remdups good_hashes 5 [''foo.py'', ''7'', ''(C)''] \<lparr>st = 0, events = []\<rparr>
     = Some (1, \<lparr>st = 0, events = [DirCheck ''/C'']\<rparr>)
   \<and> main sys0 status_A remdups good_hashes 5 [''foo.py'', ''7'', ''(A)''] \<lparr>st = 0, events = []\<rparr>
     = Some (0, \<lparr>st = 1, events = [DirCheck ''/A'', Fingerprint ''/A'', Invoke ''A'' []]\<rparr>)
   \<and> main sys0 status_A remdups good_hashes 5 [''foo.py'', ''7'', ''!(A)''] \<lparr>st = 0, events = []\<rparr>
     = Some (1, \<lparr>st = 1, events = [DirCheck ''/A'', Fingerprint ''/A'', Invoke ''A'' []]\<rparr>)"
proof -
  let ?w = "\<lparr>st = 0::nat, events = []\<rparr>"
  let ?wA = "\<lparr>st = 0::nat, events = [DirCheck ''/A'', Fingerprint ''/A'']\<rparr>"
  have vC: "verify_loop sys0 good_hashes [''C''] ?w = (False, \<lparr>st = 0, events = [DirCheck ''/C'']\<rparr>)"
    by (simp add: sys0_def good_hashes_def dict_get_def Let_def)
  have vA: "verify_loop sys0 good_hashes [''A''] ?w = (True, ?wA)"
    by (simp add: sys0_def good_hashes_def dict_get_def Let_def)
  have eA: "evaluate status_A False (Some good_hashes) (ScriptNode PyNone ''A'' []) ?wA
              = (True, ScriptNode (PyInt 0) ''A'' [],
                 \<lparr>st = 1, events = [DirCheck ''/A'', Fingerprint ''/A'', Invoke ''A'' []]\<rparr>)"
    by (simp add: status_A_def)
  have eN: "evaluate status_A False (Some good_hashes)
                (NotNode PyNone (Some (ScriptNode PyNone ''A'' []))) ?wA
              = (False, NotNode (PyBool False) (Some (ScriptNode (PyInt 0) ''A'' [])),
                 \<lparr>st = 1, events = [DirCheck ''/A'', Fingerprint ''/A'', Invoke ''A'' []]\<rparr>)"
    by (simp add: status_A_def Let_def)
  note inst = C5_driver_exit_code [where sys = sys0 and ex = status_A and list_set = remdups
      and h = good_hashes and fuel = 5 and w = ?w]
  show ?thesis
    using inst [where argv = "[''foo.py'']"]
          inst [where argv = "[''foo.py'', ''7'', ''x'']"]
          inst [where argv = "[''foo.py'', ''7'', ''(C)'']" and t = "ScriptNode PyNone ''C'' []"]
          inst [where argv = "[''foo.py'', ''7'', ''(A)'']" and t = "ScriptNode PyNone ''A'' []"]
          inst [where argv = "[''foo.py'', ''7'', ''!(A)'']"
                  and t = "NotNode PyNone (Some (ScriptNode PyNone ''A'' []))"]
    by (simp add: parse_examples vC vA eA eN del: verify_loop.simps evaluate.simps)
qed

section \<open>Termination of the parser\<close>

text \<open>
  The expression \<open>&&[[]]\<close> passes the format check: both kinds of bracket balance and
  the operator is followed by an opening bracket. Its normal form is \<open>&& [ [ ] ]\<close>.
\<close>

lemma nested_bracket_valid: "validate_expression_format ''&&[[]]''"
  by code_simp

lemma nested_bracket_normal: "normalize ''&&[[]]'' = ''&& [ [ ] ]''"
  by code_simp

text \<open>
  At position 5 of \<open>&& [ [ ] ]\<close> stands the inner opening bracket. \<^verbatim>\<open>_parse_expression\<close>
  takes the last branch there, and its recovery loop stops at once, since the bracket is
  one of the characters it looks for: the call returns no node and the position it was
  given.
\<close>

lemma stuck_expression:
  "parse_expression (Suc fuel) ''&& [ [ ] ]'' 5 = Some (None, 5)"
proof -
  have "skip_ws ''&& [ [ ] ]'' 5 = 5" and "skip_to_token ''&& [ [ ] ]'' 5 = 5"
    and "slice ''&& [ [ ] ]'' 5 7 = ''[ ''"
    by code_simp+
  then show ?thesis by (simp add: Let_def)
qed

text \<open>So the loop over the children makes no progress there, whatever the fuel.\<close>

lemma stuck_loop: "children_loop fuel ''&& [ [ ] ]'' 5 cs = None"
proof (induction fuel rule: less_induct)
  case (less fuel)
  have sk: "skip_ws_commas ''&& [ [ ] ]'' 5 = 5"
    by code_simp
  show ?case
  proof (cases fuel)
    case 0
    then show ?thesis by simp
  next
    case (Suc f)
    have step: "children_loop (Suc f) ''&& [ [ ] ]'' 5 cs
                  = (case parse_expression f ''&& [ [ ] ]'' 5 of
                       None \<Rightarrow> None
                     | Some (ch, pos2) \<Rightarrow>
                         children_loop f ''&& [ [ ] ]'' pos2
                           (case ch of None \<Rightarrow> cs | Some c \<Rightarrow> cs @ [c]))"
      using sk by (simp add: Let_def)
    show ?thesis
    proof (cases f)
      case 0
      show ?thesis unfolding \<open>fuel = Suc f\<close> step by (simp add: 0)
    next
      case (Suc g)
      have "children_loop f ''&& [ [ ] ]'' 5 cs = None"
        using less.IH [of f] \<open>fuel = Suc f\<close> by simp
      moreover have "parse_expression f ''&& [ [ ] ]'' 5 = Some (None, 5)"
        unfolding Suc by (rule stuck_expression)
      ultimately show ?thesis
        unfolding \<open>fuel = Suc f\<close> step by simp
    qed
  qed
qed

lemma stuck_children: "parse_operator_children fuel ''&& [ [ ] ]'' 2 = None"
proof (cases fuel)
  case 0
  then show ?thesis by simp
next
  case (Suc f)
  have sk: "skip_ws ''&& [ [ ] ]'' 2 = 3" "skip_ws_commas ''&& [ [ ] ]'' 4 = 5"
    by code_simp+
  have step: "parse_operator_children (Suc f) ''&& [ [ ] ]'' 2
                = (case children_loop f ''&& [ [ ] ]'' 4 [] of
                     None \<Rightarrow> None
                   | Some (cs, pos1) \<Rightarrow>
                       if pos1 < length ''&& [ [ ] ]'' \<and> ''&& [ [ ] ]'' ! pos1 = CHR '']''
                       then Some (cs, pos1 + 1)
                       else Some (cs, pos1))"
    using sk by (simp add: Let_def)
  have loop: "children_loop f ''&& [ [ ] ]'' 4 [] = None"
  proof (cases f)
    case 0
    then show ?thesis by simp
  next
    case f: (Suc g)
    have step': "children_loop (Suc g) ''&& [ [ ] ]'' 4 []
                   = (case parse_expression g ''&& [ [ ] ]'' 5 of
                        None \<Rightarrow> None
                      | Some (ch, pos2) \<Rightarrow>
                          children_loop g ''&& [ [ ] ]'' pos2
                            (case ch of None \<Rightarrow> [] | Some c \<Rightarrow> [] @ [c]))"
      using sk by (simp add: Let_def)
    show ?thesis
    proof (cases g)
      case 0
      show ?thesis unfolding f step' by (simp add: 0)
    next
      case (Suc k)
      have "parse_expression g ''&& [ [ ] ]'' 5 = Some (None, 5)"
        unfolding Suc by (rule stuck_expression)
      then show ?thesis
        unfolding f step' by (simp add: stuck_loop)
    qed
  qed
  show ?thesis
    unfolding Suc step loop by simp
qed

text \<open>
  Claim C7 says that the parser returns on every input. On the expression \<open>&&[[]]\<close> the
  parser of the source does not return: no amount of fuel suffices.
\<close>

theorem C7_parser_does_not_return: "\<forall>fuel. parse_logical_expression fuel ''&&[[]]'' = None"
proof
  fix fuel
  have sk: "skip_ws ''&& [ [ ] ]'' 0 = 0" and sl: "slice ''&& [ [ ] ]'' 0 (0 + 2) = ''&&''"
    by code_simp+
  have "parse_expression fuel ''&& [ [ ] ]'' 0 = None"
  proof (cases fuel)
    case 0
    then show ?thesis by simp
  next
    case (Suc f)
    have step: "parse_expression (Suc f) ''&& [ [ ] ]'' 0
            = (case parse_operator_children f ''&& [ [ ] ]'' 2 of
                 None \<Rightarrow> None
               | Some (cs, pos1) \<Rightarrow> Some (Some (AndNode PyNone True cs), pos1))"
      using sk sl by (simp add: Let_def numeral_2_eq_2 del: parse_operator_children.simps)
    show ?thesis
      unfolding Suc step stuck_children by simp
  qed
  then show "parse_logical_expression fuel ''&&[[]]'' = None"
    by (simp add: parse_logical_expression_def nested_bracket_valid nested_bracket_normal)
qed

section \<open>Quoted arguments\<close>

text \<open>
  Claim C8 says that the argument string \<open>"x,y",z\<close> gives the two arguments \<open>x,y\<close> and
  \<open>z\<close>. The argument loop does so when it is given that text:
\<close>

lemma script_node_raw:
  \<open>parse_script_node ''(A:"x,y",z)'' 0 = (ScriptNode PyNone ''A'' [''x,y'', ''z''], 11)\<close>
  by code_simp

text \<open>
  In the program the loop never sees that text. \<^verbatim>\<open>parse_logical_expression\<close> first
  rewrites every comma of the expression, with the white space around it, to a comma and a
  blank, inside double quotes as well as outside. The expression \<open>(A:"x,y",z)\<close> is parsed
  to the arguments \<open>x, y\<close> (with a blank) and \<open>z\<close>.
\<close>

lemma quoted_comma_normal:
  \<open>normalize ''(A:"x,y",z)'' = ''( A:"x, y", z )''\<close>
  by code_simp

theorem C8_quoted_comma_gets_blank:
  \<open>parse_logical_expression (Suc fuel) ''(A:"x,y",z)''
     = Some (Some (ScriptNode PyNone ''A'' [''x, y'', ''z'']))\<close>
proof -
  have \<open>validate_expression_format ''(A:"x,y",z)''\<close>
    by code_simp
  moreover have \<open>skip_ws ''( A:"x, y", z )'' 0 = 0\<close>
    by code_simp
  moreover have \<open>slice ''( A:"x, y", z )'' 0 (0 + 2) = ''( ''\<close>
    by code_simp
  moreover have \<open>parse_script_node ''( A:"x, y", z )'' 0
                   = (ScriptNode PyNone ''A'' [''x, y'', ''z''], 15)\<close>
    by code_simp
  ultimately show ?thesis
    by (simp add: parse_logical_expression_def quoted_comma_normal Let_def)
qed

section \<open>The format check on the text of a tree\<close>

lemma slice_shift: "slice (p @ s) (length p + i) (length p + j) = slice s i j"
  by (simp add: slice_def)

lemma py_find_shift:
  "py_find (p @ s) sub (length p + i) = map_option (\<lambda>k. length p + k) (py_find s sub i)"
proof (induction s sub i rule: py_find.induct)
  case (1 s sub i)
  have sl: "slice (p @ s) (length p + i) (length p + i + length sub) = slice s i (i + length sub)"
    using slice_shift [of p s i "i + length sub"] by (simp add: add.assoc)
  show ?case
  proof (cases "length s < i + length sub")
    case True
    then show ?thesis
      by (simp add: py_find.simps [of s sub i] py_find.simps [of "p @ s" sub "length p + i"])
  next
    case False
    show ?thesis
    proof (cases "slice s i (i + length sub) = sub")
      case True
      with False sl show ?thesis
        by (simp add: py_find.simps [of s sub i] py_find.simps [of "p @ s" sub "length p + i"])
    next
      case ne: False
      from "1.IH" [OF False ne]
      have "py_find (p @ s) sub (length p + Suc i) = map_option ((+) (length p)) (py_find s sub (Suc i))" .
      with False ne sl show ?thesis
        by (simp add: py_find.simps [of s sub i] py_find.simps [of "p @ s" sub "length p + i"])
    qed
  qed
qed

lemma skip_ws_shift: "skip_ws (p @ s) (length p + i) = length p + skip_ws s i"
proof (induction s i rule: skip_ws.induct)
  case (1 expr pos)
  show ?case
  proof (cases "pos < length expr \<and> isspace (expr ! pos)")
    case True
    with "1.IH" show ?thesis
      by (simp add: skip_ws.simps [of expr pos] skip_ws.simps [of "p @ expr" "length p + pos"])
  next
    case False
    then show ?thesis
      by (auto simp: skip_ws.simps [of expr pos] skip_ws.simps [of "p @ expr" "length p + pos"])
  qed
qed

lemma check_op_shift: "check_op op (p @ s) (length p + i) = check_op op s i"
proof (induction op s i rule: check_op.induct)
  case (1 op s i)
  show ?case
  proof (cases "op \<noteq> [] \<and> i < length s")
    case False
    then show ?thesis
      by (auto simp: check_op.simps [of op s i] check_op.simps [of op "p @ s" "length p + i"])
  next
    case True
    show ?thesis
    proof (cases "py_find s op i")
      case None
      with True show ?thesis
        by (simp add: check_op.simps [of op s i] check_op.simps [of op "p @ s" "length p + i"]
                      py_find_shift)
    next
      case (Some k)
      have sk: "skip_ws (p @ s) (length p + k + length op) = length p + skip_ws s (k + length op)"
        using skip_ws_shift [of p s "k + length op"] by (simp add: add.assoc)
      show ?thesis
      proof (cases "(op = ''&'' \<or> op = ''|'') \<and> k + 1 < length s \<and> s ! (k + 1) = s ! k")
        case c: True
        from "1.IH"(1) [OF True Some c]
        have "check_op op (p @ s) (length p + (k + 1)) = check_op op s (k + 1)" .
        with True Some c show ?thesis
          by (simp add: check_op.simps [of op s i] check_op.simps [of op "p @ s" "length p + i"]
                        py_find_shift nth_append)
      next
        case c: False
        show ?thesis
        proof (cases "length s \<le> skip_ws s (k + length op) \<or> s ! skip_ws s (k + length op) \<noteq> CHR ''[''")
          case b: True
          with True Some c sk show ?thesis
            by (auto simp: check_op.simps [of op s i] check_op.simps [of op "p @ s" "length p + i"]
                        py_find_shift nth_append Let_def)
        next
          case b: False
          from "1.IH"(2) [OF True Some c refl b]
          have "check_op op (p @ s) (length p + (k + length op)) = check_op op s (k + length op)" .
          with True Some c b sk show ?thesis
            by (auto simp: check_op.simps [of op s i] check_op.simps [of op "p @ s" "length p + i"]
                        py_find_shift nth_append Let_def add.assoc)
        qed
      qed
    qed
  qed
qed

lemma py_find_Cons_Suc: "py_find (x # t) sub (Suc i) = map_option Suc (py_find t sub i)"
  using py_find_shift [of "[x]" t sub i] by (simp add: map_option.compositionality comp_def)

lemma skip_ws_Cons_Suc: "skip_ws (x # t) (Suc i) = Suc (skip_ws t i)"
  using skip_ws_shift [of "[x]" t i] by simp

lemma check_op_Cons_Suc: "check_op op (x # t) (Suc i) = check_op op t i"
  using check_op_shift [of op "[x]" t i] by simp

lemma py_find_Nil: "sub \<noteq> [] \<Longrightarrow> py_find [] sub i = None"
  by (cases sub) (simp_all add: py_find.simps [of "[]" _ i])

lemma check_op_Nil: "check_op op [] i = True"
  by (simp add: check_op.simps [of op "[]" i])

text \<open>Where the operator does not stand at the head of the text, the head can go.\<close>

lemma check_op_skip:
  assumes "op \<noteq> []" and "take (length op) (x # t) \<noteq> op"
  shows "check_op op (x # t) 0 = check_op op t 0"
proof -
  have pf: "py_find (x # t) op 0 = map_option Suc (py_find t op 0)"
  proof (cases "length (x # t) < length op")
    case True
    then have "py_find t op 0 = None"
      by (simp add: py_find.simps [of t op 0])
    with True show ?thesis
      by (simp add: py_find.simps [of "x # t" op 0])
  next
    case False
    with assms(2) have "py_find (x # t) op 0 = py_find (x # t) op (Suc 0)"
      by (simp add: py_find.simps [of "x # t" op 0] slice_def)
    then show ?thesis by (simp add: py_find_Cons_Suc)
  qed
  show ?thesis
  proof (cases "py_find t op 0")
    case None
    with pf assms(1) show ?thesis
      by (simp add: check_op.simps [of op "x # t" 0] check_op.simps [of op t 0])
  next
    case (Some k)
    then have "t \<noteq> []"
      using py_find_Nil [OF assms(1)] by auto
    with pf Some assms(1) show ?thesis
      by (auto simp: check_op.simps [of op "x # t" 0] check_op.simps [of op t 0]
                    skip_ws_Cons_Suc check_op_Cons_Suc Let_def)
  qed
qed

text \<open>Where a two-character operator stands at the head, a bracket has to follow.\<close>

lemma check_op_double:
  assumes "a = CHR ''&'' \<or> a = CHR ''|''"
  shows "check_op [a, a] (a # a # t) 0
           = (skip_ws t 0 < length t \<and> t ! skip_ws t 0 = CHR ''['' \<and> check_op [a, a] t 0)"
proof -
  have pf: "py_find (a # a # t) [a, a] 0 = Some 0"
    by (simp add: py_find.simps [of "a # a # t" "[a, a]" 0] slice_def)
  have sk: "skip_ws (a # a # t) (Suc (Suc 0)) = Suc (Suc (skip_ws t 0))"
    by (simp add: skip_ws_Cons_Suc)
  have ck: "check_op [a, a] (a # a # t) (Suc (Suc 0)) = check_op [a, a] t 0"
    by (simp add: check_op_Cons_Suc)
  show ?thesis
    using pf sk ck by (auto simp: check_op.simps [of "[a, a]" "a # a # t" 0] Let_def)
qed

text \<open>
  Where a one-character operator stands at the head: before the same character it is
  passed over; before anything else, a bracket has to follow.
\<close>

lemma check_op_single_twice:
  assumes "a = CHR ''&'' \<or> a = CHR ''|''"
  shows "check_op [a] (a # a # t) 0 = check_op [a] (a # t) 0"
proof -
  have pf: "py_find (a # a # t) [a] 0 = Some 0"
    by (simp add: py_find.simps [of "a # a # t" "[a]" 0] slice_def)
  have ck: "check_op [a] (a # a # t) (Suc 0) = check_op [a] (a # t) 0"
    by (simp add: check_op_Cons_Suc)
  show ?thesis
    using pf ck assms by (auto simp: check_op.simps [of "[a]" "a # a # t" 0] Let_def)
qed

lemma check_op_single:
  assumes "a = CHR ''&'' \<or> a = CHR ''|''" and "b \<noteq> a"
  shows "check_op [a] (a # b # t) 0
           = (skip_ws (b # t) 0 < length (b # t) \<and> (b # t) ! skip_ws (b # t) 0 = CHR ''[''
              \<and> check_op [a] (b # t) 0)"
proof -
  have pf: "py_find (a # b # t) [a] 0 = Some 0"
    by (simp add: py_find.simps [of "a # b # t" "[a]" 0] slice_def)
  have sk: "skip_ws (a # b # t) (Suc 0) = Suc (skip_ws (b # t) 0)"
    by (simp add: skip_ws_Cons_Suc)
  have ck: "check_op [a] (a # b # t) (Suc 0) = check_op [a] (b # t) 0"
    by (simp add: check_op_Cons_Suc)
  show ?thesis
    using pf sk ck assms by (auto simp: check_op.simps [of "[a]" "a # b # t" 0] Let_def)
qed

lemma skip_ws_Cons_0: "skip_ws (x # t) 0 = (if isspace x then Suc (skip_ws t 0) else 0)"
  by (simp add: skip_ws.simps [of "x # t" 0] skip_ws_Cons_Suc)

lemma skip_ws_Nil: "skip_ws [] i = i"
  by (simp add: skip_ws.simps [of "[]" i])

lemma isspace_blank: "isspace CHR '' ''"
  by (simp add: isspace_def)

lemma not_isspace_tokens:
  "\<not> isspace CHR ''[''" "\<not> isspace CHR '']''" "\<not> isspace CHR ''(''" "\<not> isspace CHR '')''"
  "\<not> isspace CHR '',''" "\<not> isspace CHR ''&''" "\<not> isspace CHR ''|''" "\<not> isspace CHR ''!''"
  "\<not> isspace CHR '':''"
  by (simp_all add: isspace_def)

lemma check_op_other:
  assumes "is_op op" and "c \<noteq> CHR ''&''" and "c \<noteq> CHR ''|''"
  shows "check_op op (c # s) 0 = check_op op s 0"
proof (rule check_op_skip)
  from assms(1) show "op \<noteq> []" by (auto simp: is_op_def)
  from assms show "take (length op) (c # s) \<noteq> op" by (auto simp: is_op_def)
qed

lemma check_op_word:
  assumes "is_op op" and "list_all (\<lambda>c. \<not> special c) w"
  shows "check_op op (w @ s) 0 = check_op op s 0"
  using assms(2)
proof (induction w)
  case Nil
  show ?case by simp
next
  case (Cons c w)
  then have "c \<noteq> CHR ''&''" and "c \<noteq> CHR ''|''"
    by (auto simp: special_def)
  with Cons assms(1) show ?case
    by (simp add: check_op_other)
qed

lemma check_op_opword:
  assumes "is_op op" and a: "a = CHR ''&'' \<or> a = CHR ''|''"
  shows "check_op op ((if cb then [a, a] else [a]) @ '' [ '' @ s) 0 = check_op op s 0"
proof -
  have rest: "check_op op ('' [ '' @ s) 0 = check_op op s 0"
    using assms(1) by (simp add: check_op_other)
  have sk: "skip_ws ('' [ '' @ s) 0 = Suc 0"
    by (simp add: skip_ws_Cons_0 isspace_blank not_isspace_tokens)
  consider "op = [a, a]" | "op = [a]" | "op \<noteq> [a, a]" "op \<noteq> [a]"
    by blast
  then show ?thesis
  proof cases
    case 1
    show ?thesis
    proof (cases cb)
      case True
      with 1 a sk rest show ?thesis
        using check_op_double [OF a, of "'' [ '' @ s"] by simp
    next
      case False
      have "take (length op) (a # '' [ '' @ s) \<noteq> op"
        using 1 a by auto
      with False 1 rest show ?thesis
        using check_op_skip [of op a "'' [ '' @ s"] by simp
    qed
  next
    case 2
    have single: "check_op [a] (a # '' [ '' @ s) 0 = check_op [a] s 0"
      using check_op_single [OF a, of "CHR '' ''" "''[ '' @ s"] a sk rest 2
      by auto
    show ?thesis
    proof (cases cb)
      case True
      with 2 single show ?thesis
        using check_op_single_twice [OF a, of "'' [ '' @ s"] by simp
    next
      case False
      with 2 single show ?thesis by simp
    qed
  next
    case 3
    with assms have "hd op \<noteq> a"
      by (auto simp: is_op_def)
    then have ne: "take (length op) (a # u) \<noteq> op" for u
      using assms(1) by (auto simp: is_op_def)
    have "op \<noteq> []"
      using assms(1) by (auto simp: is_op_def)
    then have "check_op op (a # u) 0 = check_op op u 0" for u
      using ne [of u] by (rule check_op_skip)
    with rest show ?thesis by simp
  qed
qed

lemma join_Nil: "join sep [] = []"
  by (simp add: join_def)

lemma join_single: "join sep [x] = x"
  by (simp add: join_def)

lemma join_Cons_Cons: "join sep (x # y # ys) = x @ sep @ join sep (y # ys)"
  by (simp add: join_def)

lemma check_op_args:
  assumes "is_op op" and "list_all plain a"
  shows "check_op op (join '','' a @ s) 0 = check_op op s 0"
  using assms(2)
proof (induction a rule: induct_list012)
  case 1
  show ?case by (simp add: join_Nil)
next
  case (2 x)
  then show ?case
    by (simp add: join_single plain_def check_op_word [OF assms(1)])
next
  case (3 x y zs)
  then have "check_op op (join '','' (y # zs) @ s) 0 = check_op op s 0"
    by simp
  with 3(3) show ?case
    by (simp add: join_Cons_Cons plain_def check_op_word [OF assms(1)] check_op_other [OF assms(1)])
qed

lemma check_op_children:
  assumes "is_op op" and "\<And>c s. c \<in> set cs \<Longrightarrow> check_op op (str c @ s) 0 = check_op op s 0"
  shows "check_op op (join '', '' (map str cs) @ s) 0 = check_op op s 0"
  using assms(2)
proof (induction cs rule: induct_list012)
  case 1
  show ?case by (simp add: join_Nil)
next
  case (2 x)
  then show ?case by (simp add: join_single)
next
  case (3 x y zs)
  have "check_op op (join '', '' (map str (y # zs)) @ s) 0 = check_op op s 0"
    by (rule 3(2)) (simp add: 3(3))
  then show ?case
    using 3(3) [of x] by (simp add: join_Cons_Cons check_op_other [OF assms(1)])
qed

lemma check_op_str:
  assumes "is_op op"
  shows "plain_tree t \<Longrightarrow> check_op op (str t @ s) 0 = check_op op s 0"
proof (induction t arbitrary: s)
  case (ScriptNode r n a)
  then show ?case
    by (simp add: plain_def check_op_word [OF assms] check_op_other [OF assms]
                  check_op_args [OF assms])
next
  case (NotNode r ch)
  then show ?case
    by (cases ch) (simp_all add: check_op_other [OF assms])
next
  case (AndNode r cb cs)
  have "check_op op (join '', '' (map str cs) @ u) 0 = check_op op u 0" for u
    using AndNode by (intro check_op_children [OF assms]) (auto simp: list_all_iff)
  then show ?case
    using check_op_opword [OF assms, of "CHR ''&''" cb] by (simp add: check_op_other [OF assms])
next
  case (OrNode r cb cs)
  have "check_op op (join '', '' (map str cs) @ u) 0 = check_op op u 0" for u
    using OrNode by (intro check_op_children [OF assms]) (auto simp: list_all_iff)
  then show ?case
    using check_op_opword [OF assms, of "CHR ''|''" cb] by (simp add: check_op_other [OF assms])
qed

lemma count_append: "count (a @ b) c = count a c + count b c"
  by (simp add: count_def)

lemma count_Cons: "count (x # b) c = (if x = c then 1 else 0) + count b c"
  by (simp add: count_def)

lemma count_Nil: "count [] c = 0"
  by (simp add: count_def)

lemma count_plain: "special c \<Longrightarrow> list_all (\<lambda>c. \<not> special c) w \<Longrightarrow> count w c = 0"
  by (induction w) (auto simp: count_def)

lemma count_args:
  assumes "special c" and "c \<noteq> CHR '',''" and "list_all plain a"
  shows "count (join '','' a) c = 0"
  using assms(3)
proof (induction a rule: induct_list012)
  case 1
  show ?case by (simp add: join_Nil count_Nil)
next
  case (2 x)
  then show ?case by (simp add: join_single plain_def count_plain [OF assms(1)])
next
  case (3 x y zs)
  with assms(2) show ?case
    by (simp add: join_Cons_Cons plain_def count_append count_Cons count_Nil
                  count_plain [OF assms(1)])
qed

lemma special_brackets:
  "special CHR ''[''" "special CHR '']''" "special CHR ''(''" "special CHR '')''"
  by (simp_all add: special_def)

lemma count_children:
  assumes "\<And>c. c \<in> set cs \<Longrightarrow> count (str c) a = count (str c) b"
    and "a \<noteq> CHR '',''" "a \<noteq> CHR '' ''" "b \<noteq> CHR '',''" "b \<noteq> CHR '' ''"
  shows "count (join '', '' (map str cs)) a = count (join '', '' (map str cs)) b"
  using assms(1)
proof (induction cs rule: induct_list012)
  case 1
  show ?case by (simp add: join_Nil count_Nil)
next
  case (2 x)
  then show ?case by (simp add: join_single)
next
  case (3 x y zs)
  have "count (join '', '' (map str (y # zs))) a = count (join '', '' (map str (y # zs))) b"
    by (rule 3(2)) (simp add: 3(3))
  then show ?case
    using 3(3) [of x] assms(2-5)
    by (simp add: join_Cons_Cons count_append count_Cons count_Nil)
qed

lemma count_str:
  "plain_tree t \<Longrightarrow>
   count (str t) CHR ''['' = count (str t) CHR '']''
   \<and> count (str t) CHR ''('' = count (str t) CHR '')''"
proof (induction t)
  case (ScriptNode r n a)
  then show ?case
    by (simp add: plain_def count_append count_Cons count_Nil count_plain count_args
                  special_brackets)
next
  case (NotNode r ch)
  then show ?case
    by (cases ch) (simp_all add: count_Cons)
next
  case (AndNode r cb cs)
  then have "count (join '', '' (map str cs)) CHR ''['' = count (join '', '' (map str cs)) CHR '']''"
    and "count (join '', '' (map str cs)) CHR ''('' = count (join '', '' (map str cs)) CHR '')''"
    by (auto intro!: count_children simp: list_all_iff)
  then show ?case
    by (simp add: count_append count_Cons count_Nil)
next
  case (OrNode r cb cs)
  then have "count (join '', '' (map str cs)) CHR ''['' = count (join '', '' (map str cs)) CHR '']''"
    and "count (join '', '' (map str cs)) CHR ''('' = count (join '', '' (map str cs)) CHR '')''"
    by (auto intro!: count_children simp: list_all_iff)
  then show ?case
    by (simp add: count_append count_Cons count_Nil)
qed

lemma validate_str: "plain_tree t \<Longrightarrow> validate_expression_format (str t)"
proof -
  assume p: "plain_tree t"
  have "check_op op (str t) 0" if "is_op op" for op
    using check_op_str [OF that p, of "[]"] by (simp add: check_op_Nil)
  then have "check_op ''&&'' (str t) 0" "check_op ''||'' (str t) 0"
    "check_op ''&'' (str t) 0" "check_op ''|'' (str t) 0"
    by (simp_all add: is_op_def)
  with count_str [OF p] show ?thesis
    by (simp add: validate_expression_format_def)
qed

section \<open>The substitutions on tokens and blanks\<close>

lemma dropWhile_sp: "dropWhile isspace (sp g @ s) = dropWhile isspace s"
  by (induction g) (simp_all add: sp_def isspace_blank)

lemma tokstr_wf:
  assumes "wf_tok x"
  shows "tokstr x \<noteq> []" and "list_all (\<lambda>c. \<not> isspace c) (tokstr x)"
  using assms by (cases x; simp add: not_isspace_tokens list_all_iff)+

lemma dropWhile_tokstr: "wf_tok x \<Longrightarrow> dropWhile isspace (tokstr x @ s) = tokstr x @ s"
  using tokstr_wf [of x] by (cases "tokstr x") auto

lemma rend_Nil: "rend [] = []"
  by (simp add: rend_def)

lemma rend_Cons: "rend ((x, k) # ts) = tokstr x @ sp k @ rend ts"
  by (simp add: rend_def)

lemma rend_append: "rend (a @ b) = rend a @ rend b"
  by (simp add: rend_def)

lemma dropWhile_rend:
  "list_all wf_tok (map fst ts) \<Longrightarrow> dropWhile isspace (rend ts) = rend ts"
  by (cases ts) (auto simp: rend_Nil rend_Cons dropWhile_tokstr)

lemma sp_0: "sp 0 = []"
  by (simp add: sp_def)

lemma sp_Suc: "sp (Suc n) = CHR '' '' # sp n"
  by (simp add: sp_def)

lemma sp_add: "sp (m + n) = sp m @ sp n"
  by (simp add: sp_def replicate_add)

text \<open>The substitution around \<open>c\<close>, step by step.\<close>

lemma re_sub_nonspace:
  "\<not> isspace x \<Longrightarrow>
   re_sub_around c repl (x # s)
     = (if x = c then repl @ re_sub_around c repl (dropWhile isspace s)
        else x # re_sub_around c repl s)"
  by simp

lemma re_sub_word:
  "list_all (\<lambda>x. \<not> isspace x \<and> x \<noteq> c) w \<Longrightarrow>
   re_sub_around c repl (w @ s) = w @ re_sub_around c repl s"
  by (induction w) simp_all

lemma re_sub_blanks_match:
  "\<not> isspace c \<Longrightarrow>
   re_sub_around c repl (sp g @ c # s) = repl @ re_sub_around c repl (dropWhile isspace s)"
  by (cases g) (simp_all add: sp_0 sp_Suc dropWhile_sp isspace_blank)

lemma re_sub_blanks_other:
  assumes "case dropWhile isspace s of [] \<Rightarrow> True | y # ys \<Rightarrow> y \<noteq> c"
  shows "re_sub_around c repl (sp g @ s) = sp g @ re_sub_around c repl s"
proof (induction g)
  case 0
  show ?case by (simp add: sp_0)
next
  case (Suc g)
  show ?case
  proof (cases "dropWhile isspace s")
    case Nil
    with Suc show ?thesis
      by (simp add: sp_Suc dropWhile_sp isspace_blank del: dropWhile_eq_Nil_conv)
  next
    case (Cons y ys)
    with assms have "y \<noteq> c" by simp
    with Cons Suc show ?thesis
      by (simp add: sp_Suc dropWhile_sp isspace_blank)
  qed
qed

lemma render_Nil: "render g [] = sp g"
  by (simp add: render_def rend_Nil)

lemma render_Cons: "render g ((x, k) # ts) = sp g @ tokstr x @ render k ts"
  by (simp add: render_def rend_Cons)

lemma render_0: "render 0 ts = rend ts"
  by (simp add: render_def sp_0)

lemma struct_char:
  assumes "is_struct c"
  shows "tokstr c = [hd (tokstr c)]" and "\<not> isspace (hd (tokstr c))"
  using assms by (cases c; simp add: is_struct_def not_isspace_tokens)+

lemma other_token_chars:
  assumes "is_struct c" and "tokstr c = [ch]" and "wf_tok x" and "x \<noteq> c"
  shows "list_all (\<lambda>y. \<not> isspace y \<and> y \<noteq> ch) (tokstr x)"
  using assms
  by (cases c; cases x; simp add: is_struct_def not_isspace_tokens list_all_iff; blast?)

lemma other_token_head:
  assumes "is_struct c" and "tokstr c = [ch]" and "wf_tok x" and "x \<noteq> c"
  shows "case dropWhile isspace (tokstr x @ s) of [] \<Rightarrow> True | y # ys \<Rightarrow> y \<noteq> ch"
proof -
  from tokstr_wf [OF assms(3)] obtain a w where t: "tokstr x = a # w"
    by (cases "tokstr x") auto
  with other_token_chars [OF assms] tokstr_wf(2) [OF assms(3)] show ?thesis
    by simp
qed

lemma firsttok_simps:
  "firsttok [] nx = nx" "firsttok ((x, k) # ts) nx = Some x"
  by (simp_all add: firsttok_def)

lemma H_same: "H c pre post c nx k = post + (if nx = Some c then pre else 0)"
  by (simp add: H_def)

lemma H_other: "x \<noteq> c \<Longrightarrow> H c pre post x nx k = (if nx = Some c then pre else k)"
  by (simp add: H_def)

text \<open>
  The substitution around the token \<open>c\<close> leaves the tokens and sets the blanks next to
  every \<open>c\<close>.
\<close>

lemma re_sub_render:
  assumes "is_struct c" and tc: "tokstr c = [ch]"
  shows "list_all wf_tok (map fst ts) \<Longrightarrow>
    re_sub_around ch (sp pre @ [ch] @ sp post) (render g ts)
      = render (if firsttok ts None = Some c then pre else g) (lmapn (H c pre post) None ts)"
proof (induction ts arbitrary: g)
  case Nil
  show ?case
    using re_sub_blanks_other [where s = "[]" and c = ch and g = g]
    by (simp add: render_Nil firsttok_simps)
next
  case (Cons xk ts)
  obtain x k where xk: "xk = (x, k)" by (cases xk)
  from Cons.prems xk have wx: "wf_tok x" and wts: "list_all wf_tok (map fst ts)"
    by simp_all
  from struct_char [OF assms(1)] tc have nsp: "\<not> isspace ch" by simp
  let ?l = "\<lambda>g. if firsttok ts None = Some c then pre else g"
  let ?repl = "sp pre @ [ch] @ sp post"
  note IH = Cons.IH [OF wts]
  show ?case
  proof (cases "x = c")
    case True
    have "render g ((c, k) # ts) = sp g @ ch # (sp k @ rend ts)"
      by (simp add: render_def rend_Cons tc)
    then have "re_sub_around ch ?repl (render g ((c, k) # ts))
            = ?repl @ re_sub_around ch ?repl (dropWhile isspace (sp k @ rend ts))"
      by (simp only: re_sub_blanks_match [OF nsp])
    also have "dropWhile isspace (sp k @ rend ts) = render 0 ts"
      by (simp add: render_0 dropWhile_sp dropWhile_rend [OF wts])
    also have "?repl @ re_sub_around ch ?repl (render 0 ts)
                 = ?repl @ render (?l 0) (lmapn (H c pre post) None ts)"
      by (simp only: IH)
    also have "\<dots> = render pre ((c, post + ?l 0) # lmapn (H c pre post) None ts)"
      by (simp add: render_def rend_Cons sp_add sp_0 tc)
    finally show ?thesis
      using True xk by (simp add: firsttok_simps H_same)
  next
    case False
    have "re_sub_around ch ?repl (render g ((x, k) # ts))
            = sp g @ re_sub_around ch ?repl (tokstr x @ render k ts)"
      unfolding render_Cons
      by (rule re_sub_blanks_other [OF other_token_head [OF assms wx False]])
    also have "\<dots> = sp g @ tokstr x @ re_sub_around ch ?repl (render k ts)"
      by (simp only: re_sub_word [OF other_token_chars [OF assms wx False]])
    also have "\<dots> = sp g @ tokstr x @ render (?l k) (lmapn (H c pre post) None ts)"
      by (simp only: IH)
    finally show ?thesis
      using False xk by (simp add: firsttok_simps H_other render_Cons)
  qed
qed

text \<open>The collapse of the runs of blanks.\<close>

lemma re_sub_spaces_word:
  "list_all (\<lambda>c. \<not> isspace c) w \<Longrightarrow> re_sub_spaces (w @ s) = w @ re_sub_spaces s"
  by (induction w) simp_all

lemma re_sub_spaces_sp:
  "re_sub_spaces (sp g @ s) = sp (min 1 g) @ re_sub_spaces (dropWhile isspace s)"
  if "g = 0 \<longrightarrow> dropWhile isspace s = s"
  using that by (cases g) (simp_all add: sp_0 sp_Suc isspace_blank dropWhile_sp)

lemma re_sub_spaces_render:
  "list_all wf_tok (map fst ts) \<Longrightarrow>
   re_sub_spaces (render g ts) = render (min 1 g) (lmapn (\<lambda>x nx k. min 1 k) None ts)"
proof (induction ts arbitrary: g)
  case Nil
  show ?case
    using re_sub_spaces_sp [of g "[]"] by (simp add: render_Nil)
next
  case (Cons xk ts)
  obtain x k where xk: "xk = (x, k)" by (cases xk)
  from Cons.prems xk have wx: "wf_tok x" and wts: "list_all wf_tok (map fst ts)"
    by simp_all
  have "re_sub_spaces (render g ((x, k) # ts))
          = sp (min 1 g) @ re_sub_spaces (tokstr x @ render k ts)"
    using re_sub_spaces_sp [of g "tokstr x @ render k ts"]
    by (simp add: render_Cons dropWhile_tokstr [OF wx])
  also have "\<dots> = sp (min 1 g) @ tokstr x @ re_sub_spaces (render k ts)"
    by (simp add: re_sub_spaces_word [OF tokstr_wf(2) [OF wx]])
  finally show ?case
    using xk by (simp add: Cons.IH [OF wts] render_Cons)
qed

text \<open>The strip.\<close>

lemma rend_not_blank:
  "list_all wf_tok (map fst ts) \<Longrightarrow> ts \<noteq> [] \<Longrightarrow> \<not> list_all isspace (rend ts)"
proof (cases ts)
  case Nil
  then show "ts \<noteq> [] \<Longrightarrow> ?thesis" by simp
next
  case (Cons xk r)
  assume "list_all wf_tok (map fst ts)"
  with Cons have "wf_tok (fst xk)" by simp
  from tokstr_wf [OF this] Cons show ?thesis
    by (cases xk; cases "tokstr (fst xk)") (auto simp: rend_Cons)
qed

lemma rstrip_rend:
  "list_all wf_tok (map fst ts) \<Longrightarrow>
   rev (dropWhile isspace (rev (rend ts)))
     = rend (lmapn (\<lambda>x nx k. if nx = None then 0 else k) None ts)"
proof (induction ts)
  case Nil
  show ?case by (simp add: rend_Nil)
next
  case (Cons xk ts)
  obtain x k where xk: "xk = (x, k)" by (cases xk)
  from Cons.prems xk have wx: "wf_tok x" and wts: "list_all wf_tok (map fst ts)"
    by simp_all
  from tokstr_wf [OF wx] have last: "\<not> list_all isspace (tokstr x)"
    by (cases "tokstr x") (auto simp: list_all_iff)
  show ?case
  proof (cases ts)
    case Nil
    have "dropWhile isspace (rev (sp k) @ rev (tokstr x)) = dropWhile isspace (rev (tokstr x))"
      by (simp add: sp_def dropWhile_append isspace_blank)
    moreover have "dropWhile isspace (rev (tokstr x)) = rev (tokstr x)"
      using tokstr_wf [OF wx] by (cases "rev (tokstr x)") (auto simp: list_all_iff)
    ultimately show ?thesis
      using Nil xk by (simp add: rend_Cons rend_Nil firsttok_simps sp_0)
  next
    case (Cons yl r)
    obtain y l where yl: "yl = (y, l)" by (cases yl)
    have nb: "\<not> list_all isspace (rend ts)"
      using rend_not_blank [OF wts] Cons by simp
    from nb obtain z where z: "z \<in> set (rev (rend ts))" "\<not> isspace z"
      by (auto simp: list_all_iff)
    have "rev (dropWhile isspace (rev (rend ts) @ rev (tokstr x @ sp k)))
            = tokstr x @ sp k @ rev (dropWhile isspace (rev (rend ts)))"
      by (simp add: dropWhile_append1 [of z "rev (rend ts)" isspace, OF z])
    then show ?thesis
      using Cons xk yl Cons.IH [OF wts] by (simp add: rend_Cons firsttok_simps)
  qed
qed

lemma strip_render:
  "list_all wf_tok (map fst ts) \<Longrightarrow>
   strip (render g ts) = rend (lmapn (\<lambda>x nx k. if nx = None then 0 else k) None ts)"
  by (simp add: strip_def render_def dropWhile_sp dropWhile_rend rstrip_rend)

text \<open>Substitutions compose.\<close>

lemma firsttok_lmapn: "firsttok (lmapn F nx ts) nx' = firsttok ts nx'"
  by (cases ts) (auto simp: firsttok_simps)

lemma lmapn_lmapn:
  "lmapn F2 nx (lmapn F1 nx ts) = lmapn (\<lambda>x n k. F2 x n (F1 x n k)) nx ts"
  by (induction ts) (auto simp: firsttok_lmapn)

lemma toks_lmapn: "map fst (lmapn F nx ts) = map fst ts"
  by (induction ts) auto

lemma lmapn_cong: "(\<And>x n k. F x n k = G x n k) \<Longrightarrow> lmapn F nx ts = lmapn G nx ts"
  by (induction ts) auto

lemma struct_tokens: "is_struct LB" "is_struct RB" "is_struct LP" "is_struct RP" "is_struct CM"
  by (simp_all add: is_struct_def)

text \<open>
  The normal form of a text of tokens and blanks: the same tokens, with the blanks that
  \<open>Hfin\<close> gives.
\<close>

lemma normalize_render:
  assumes "list_all wf_tok (map fst ts)"
  shows "normalize (render g ts) = rend (lmapn Hfin None ts)"
proof -
  note w = assms
  have wf: "list_all wf_tok (map fst (lmapn F None ts))" for F
    by (simp add: toks_lmapn w)
  have sub: "\<exists>g'. re_sub_around ch (sp pre @ [ch] @ sp post) (render g0 (lmapn F None ts))
               = render g' (lmapn (H c pre post) None (lmapn F None ts))"
    if "is_struct c" "tokstr c = [ch]" for c ch pre post g0 F
    using re_sub_render [OF that wf] by blast
  have blanks: "'' [ '' = sp 1 @ ''['' @ sp 1" "'' ] '' = sp 1 @ '']'' @ sp 1"
    "'' ( '' = sp 1 @ ''('' @ sp 1" "'' ) '' = sp 1 @ '')'' @ sp 1" "'', '' = sp 0 @ '','' @ sp 1"
    by (simp_all add: sp_def)
  obtain g1 where 1: "re_sub_around CHR ''['' '' [ '' (render g ts)
                        = render g1 (lmapn (H LB 1 1) None ts)"
    using re_sub_render [OF struct_tokens(1) _ w, of "CHR ''[''" 1 1 g] blanks by auto
  obtain g2 where 2: "re_sub_around CHR '']'' '' ] '' (render g1 (lmapn (H LB 1 1) None ts))
                        = render g2 (lmapn (H RB 1 1) None (lmapn (H LB 1 1) None ts))"
    using sub [OF struct_tokens(2), of "CHR '']''" 1 1 g1] blanks by auto
  obtain g3 where 3: "re_sub_around CHR ''('' '' ( ''
                          (render g2 (lmapn (H RB 1 1) None (lmapn (H LB 1 1) None ts)))
                        = render g3 (lmapn (H LP 1 1) None
                            (lmapn (H RB 1 1) None (lmapn (H LB 1 1) None ts)))"
    using sub [OF struct_tokens(3), of "CHR ''(''" 1 1 g2] blanks
    by (auto simp: lmapn_lmapn)
  obtain g4 where 4: "re_sub_around CHR '')'' '' ) ''
                          (render g3 (lmapn (H LP 1 1) None
                            (lmapn (H RB 1 1) None (lmapn (H LB 1 1) None ts))))
                        = render g4 (lmapn (H RP 1 1) None (lmapn (H LP 1 1) None
                            (lmapn (H RB 1 1) None (lmapn (H LB 1 1) None ts))))"
    using sub [OF struct_tokens(4), of "CHR '')''" 1 1 g3] blanks
    by (auto simp: lmapn_lmapn)
  obtain g5 where 5: "re_sub_around CHR '','' '', ''
                          (render g4 (lmapn (H RP 1 1) None (lmapn (H LP 1 1) None
                            (lmapn (H RB 1 1) None (lmapn (H LB 1 1) None ts)))))
                        = render g5 (lmapn (H CM 0 1) None (lmapn (H RP 1 1) None
                            (lmapn (H LP 1 1) None
                              (lmapn (H RB 1 1) None (lmapn (H LB 1 1) None ts)))))"
    using sub [OF struct_tokens(5), of "CHR '',''" 0 1 g4] blanks
    by (auto simp: lmapn_lmapn)
  let ?F5 = "\<lambda>x n k. H CM 0 1 x n (H RP 1 1 x n (H LP 1 1 x n (H RB 1 1 x n (H LB 1 1 x n k))))"
  have "normalize (render g ts)
          = strip (re_sub_spaces (render g5 (lmapn (H CM 0 1) None (lmapn (H RP 1 1) None
              (lmapn (H LP 1 1) None (lmapn (H RB 1 1) None (lmapn (H LB 1 1) None ts)))))))"
    unfolding normalize_def Let_def 1 2 3 4 5 ..
  also have "\<dots> = strip (re_sub_spaces (render g5 (lmapn ?F5 None ts)))"
    by (simp only: lmapn_lmapn)
  also have "\<dots> = strip (render (min 1 g5) (lmapn (\<lambda>x nx k. min 1 k) None (lmapn ?F5 None ts)))"
    by (simp only: re_sub_spaces_render [OF wf])
  also have "\<dots> = rend (lmapn (\<lambda>x nx k. if nx = None then 0 else k) None
                      (lmapn (\<lambda>x nx k. min 1 k) None (lmapn ?F5 None ts)))"
    by (rule strip_render) (simp add: toks_lmapn w)
  also have "\<dots> = rend (lmapn Hfin None ts)"
    unfolding lmapn_lmapn
    by (rule arg_cong [where f = rend], rule lmapn_cong) (simp add: Hfin_def split: option.splits)
  finally show ?thesis .
qed

section \<open>The normal form of the text of a tree\<close>

lemma append_single: "(@) [c] = (#) c"
  by (rule ext) simp

lemma rend_args: "rend (concat (map (\<lambda>b. [(CM, 0), (W b, 0)]) as)) = concat (map (\<lambda>b. '','' @ b) as)"
  by (induction as) (simp_all add: rend_Nil rend_Cons sp_0)

lemma rend_GT:
  "rend (GT t k) = str t @ sp k"
  "rend (GTs cs) = (if cs = [] then [] else join '', '' (map str cs) @ sp 1)"
proof (induction t k and cs rule: GT_GTs.induct)
  case (1 r n k)
  show ?case by (simp add: rend_Cons rend_Nil sp_0)
next
  case (2 r n a as k)
  show ?case
    by (simp add: rend_Cons rend_Nil rend_append rend_args sp_0 join_def append_single)
next
  case (3 r k)
  show ?case by (simp add: rend_Cons rend_Nil)
next
  case (4 r c k)
  then show ?case by (simp add: rend_Cons sp_0)
next
  case (5 r cb cs k)
  then show ?case
    by (simp add: rend_Cons rend_Nil rend_append sp_def opword_def numeral_2_eq_2 join_Nil)
next
  case (6 r cb cs k)
  then show ?case
    by (simp add: rend_Cons rend_Nil rend_append sp_def opword_def numeral_2_eq_2 join_Nil)
next
  case 7
  show ?case by (simp add: rend_Nil)
next
  case (8 c)
  then show ?case by (simp add: join_single)
next
  case (9 c d cs)
  then show ?case
    by (simp add: rend_Cons rend_Nil rend_append join_Cons_Cons sp_def)
qed

lemma plain_word: "plain w \<Longrightarrow> wf_tok (W w)"
  by (auto simp: plain_def special_def list_all_iff)

lemma wf_args: "list_all plain as \<Longrightarrow> list_all wf_tok (map fst (concat (map (\<lambda>b. [(CM, 0), (W b, 0)]) as)))"
  by (induction as) (simp_all add: plain_word del: wf_tok.simps(1))

lemma wf_word_append: "wf_tok (W a) \<Longrightarrow> wf_tok (W b) \<Longrightarrow> wf_tok (W (a @ b))"
  by simp

lemma wf_colon: "wf_tok (W '':'')"
  by (simp add: not_isspace_tokens)

lemma wf_opword: "a = CHR ''&'' \<or> a = CHR ''|'' \<Longrightarrow> wf_tok (W (opword a cb))"
  by (auto simp: opword_def not_isspace_tokens)

lemma wf_bang: "wf_tok (W ''!'')"
  by (simp add: not_isspace_tokens)

lemma wf_GT:
  "plain_tree t \<Longrightarrow> list_all wf_tok (map fst (GT t k))"
  "list_all plain_tree cs \<Longrightarrow> list_all wf_tok (map fst (GTs cs))"
proof (induction t k and cs rule: GT_GTs.induct)
  case (1 r n k)
  then show ?case by (simp add: plain_word del: wf_tok.simps(1))
next
  case (2 r n a as k)
  then have "wf_tok (W (n @ '':'' @ a))"
    by (intro wf_word_append wf_colon plain_word) simp_all
  with 2 show ?case by (simp add: wf_args del: wf_tok.simps(1))
next
  case (3 r k)
  then show ?case by simp
next
  case (4 r c k)
  then show ?case by (simp add: wf_bang del: wf_tok.simps(1))
next
  case (5 r cb cs k)
  then show ?case by (simp add: wf_opword del: wf_tok.simps(1))
next
  case (6 r cb cs k)
  then show ?case by (simp add: wf_opword del: wf_tok.simps(1))
next
  case 7
  show ?case by simp
next
  case (8 c)
  then show ?case by simp
next
  case (9 c d cs)
  then show ?case by simp
qed

text \<open>The blanks of the normal form between two tokens.\<close>

lemma Hfin_None: "Hfin x None k = 0"
  by (simp add: Hfin_def)

lemma Hfin_before_CM: "x \<noteq> CM \<Longrightarrow> Hfin x (Some CM) k = 0"
  by (simp add: Hfin_def H_def)

lemma Hfin_after_CM: "Hfin CM (Some y) k = 1"
  by (simp add: Hfin_def H_def)

lemma Hfin_struct:
  "x \<noteq> CM \<Longrightarrow> y \<noteq> CM \<Longrightarrow> \<not> is_word x \<or> \<not> is_word y \<Longrightarrow> Hfin x (Some y) k = 1"
  by (cases x; cases y) (simp_all add: Hfin_def H_def)

lemma Hfin_words: "Hfin (W a) (Some (W b)) k = min 1 k"
  by (simp add: Hfin_def H_def)

lemma ftok_cases: "ftok t = LP \<or> is_word (ftok t)"
  by (cases t rule: ftok.cases) simp_all

lemma ltok_not_CM: "ltok t \<noteq> CM"
  by (induction t rule: ltok.induct) simp_all

lemma ltok_cases: "plain_tree t \<Longrightarrow> \<not> is_word (ltok t)"
  by (induction t rule: ltok.induct) simp_all

lemma firsttok_append: "firsttok (a @ b) nx = firsttok a (firsttok b nx)"
  by (cases a) (simp_all add: firsttok_def)

lemma lmapn_append: "lmapn F nx (a @ b) = lmapn F (firsttok b nx) a @ lmapn F nx b"
  by (induction a) (auto simp: firsttok_append firsttok_simps)

lemma firsttok_GT: "firsttok (GT t k) nx = Some (ftok t)"
proof (cases t)
  case (ScriptNode r n a)
  then show ?thesis by (cases a) (simp_all add: firsttok_simps)
next
  case (NotNode r ch)
  then show ?thesis by (cases ch) (simp_all add: firsttok_simps)
qed (simp_all add: firsttok_simps)

lemma firsttok_GTs: "firsttok (GTs (d # cs)) nx = Some (ftok d)"
  by (cases cs) (simp_all add: firsttok_GT firsttok_append)

lemma ftok_not_CM: "ftok t \<noteq> CM"
  using ftok_cases [of t] by auto

lemma Hfin_bang: "Hfin (W ''!'') (Some (ftok c)) 0 = (if ftok c = LP then 1 else 0)"
proof (cases "ftok c = LP")
  case True
  then show ?thesis by (simp add: Hfin_struct)
next
  case False
  with ftok_cases [of c] obtain w where "ftok c = W w"
    by (cases "ftok c") auto
  with False show ?thesis by (simp add: Hfin_words)
qed

lemma append_pair: "(@) [c, d] = (\<lambda>b. c # d # b)"
  by (rule ext) simp

lemma rend_norm_args:
  "rend (lmapn Hfin (Some RP) ((W w, 0) # concat (map (\<lambda>b. [(CM, 0), (W b, 0)]) as)))
     = w @ concat (map (\<lambda>b. '', '' @ b) as) @ '' ''"
proof (induction as arbitrary: w)
  case Nil
  show ?case
    by (simp add: firsttok_simps Hfin_struct rend_Cons rend_Nil sp_def)
next
  case (Cons b bs)
  have "rend (lmapn Hfin (Some RP) ((W w, 0) # concat (map (\<lambda>b. [(CM, 0), (W b, 0)]) (b # bs))))
          = w @ '', '' @ rend (lmapn Hfin (Some RP) ((W b, 0) # concat (map (\<lambda>b. [(CM, 0), (W b, 0)]) bs)))"
    by (simp add: firsttok_simps Hfin_before_CM Hfin_after_CM rend_Cons sp_def)
  then show ?case
    by (simp add: Cons.IH del: lmapn.simps)
qed

lemma rend_norm_GT:
  "rend (lmapn Hfin nx (GT t k)) = nstr t @ sp (Hfin (ltok t) nx k)"
  "rend (lmapn Hfin (Some RB) (GTs cs))
     = (if cs = [] then [] else join '', '' (map nstr cs) @ '' '')"
proof (induction t k and cs arbitrary: nx rule: GT_GTs.induct)
  case (1 r n k)
  show ?case
    by (simp add: firsttok_simps Hfin_struct rend_Cons rend_Nil sp_def)
next
  case (2 r n a as k)
  have "lmapn Hfin nx (GT (ScriptNode r n (a # as)) k)
          = (LP, 1) # lmapn Hfin (Some RP) ((W (n @ '':'' @ a), 0) # concat (map (\<lambda>b. [(CM, 0), (W b, 0)]) as))
            @ [(RP, Hfin RP nx k)]"
    by (simp add: lmapn_append firsttok_simps firsttok_append Hfin_struct)
  then show ?case
    by (simp add: rend_Cons rend_Nil rend_append rend_norm_args join_def sp_def append_pair
             del: lmapn.simps)
next
  case (3 r k)
  show ?case
    by (simp add: firsttok_simps rend_Cons rend_Nil)
next
  case (4 r c k)
  have "lmapn Hfin nx (GT (NotNode r (Some c)) k)
          = (W ''!'', if ftok c = LP then 1 else 0) # lmapn Hfin nx (GT c k)"
    by (simp add: firsttok_GT Hfin_bang)
  then show ?case
    by (simp add: rend_Cons 4 sp_def del: lmapn.simps)
next
  case (5 r cb cs k)
  have f: "firsttok (GTs cs @ [(RB, k)]) nx = Some (if cs = [] then RB else ftok (hd cs))"
    by (cases cs) (simp_all add: firsttok_simps firsttok_append firsttok_GTs)
  have "Hfin LB (Some (if cs = [] then RB else ftok (hd cs))) g = 1" for g
    using ftok_not_CM by (simp add: Hfin_struct)
  with f have "lmapn Hfin nx (GT (AndNode r cb cs) k)
          = (W (opword CHR ''&'' cb), 1) # (LB, 1) # lmapn Hfin (Some RB) (GTs cs)
            @ [(RB, Hfin RB nx k)]"
    by (simp add: lmapn_append firsttok_simps Hfin_struct)
  then show ?case
    by (simp add: rend_Cons rend_Nil rend_append 5 sp_def del: lmapn.simps)
next
  case (6 r cb cs k)
  have f: "firsttok (GTs cs @ [(RB, k)]) nx = Some (if cs = [] then RB else ftok (hd cs))"
    by (cases cs) (simp_all add: firsttok_simps firsttok_append firsttok_GTs)
  have "Hfin LB (Some (if cs = [] then RB else ftok (hd cs))) g = 1" for g
    using ftok_not_CM by (simp add: Hfin_struct)
  with f have "lmapn Hfin nx (GT (OrNode r cb cs) k)
          = (W (opword CHR ''|'' cb), 1) # (LB, 1) # lmapn Hfin (Some RB) (GTs cs)
            @ [(RB, Hfin RB nx k)]"
    by (simp add: lmapn_append firsttok_simps Hfin_struct)
  then show ?case
    by (simp add: rend_Cons rend_Nil rend_append 6 sp_def del: lmapn.simps)
next
  case 7
  show ?case by (simp add: rend_Nil)
next
  case (8 c)
  have "Hfin (ltok c) (Some RB) 1 = 1"
    using ltok_not_CM by (simp add: Hfin_struct)
  with 8 [of "Some RB"] show ?case
    by (simp add: join_single sp_def)
next
  case (9 c d cs)
  have "lmapn Hfin (Some RB) (GTs (c # d # cs))
          = lmapn Hfin (Some CM) (GT c 0) @ (CM, 1) # lmapn Hfin (Some RB) (GTs (d # cs))"
    by (simp add: lmapn_append firsttok_simps firsttok_GTs Hfin_after_CM)
  moreover have "Hfin (ltok c) (Some CM) 0 = 0"
    using ltok_not_CM by (simp add: Hfin_before_CM)
  ultimately show ?case
    by (simp add: rend_append rend_Cons 9 join_Cons_Cons sp_def del: lmapn.simps GT.simps)
qed

text \<open>The normalisation of the text of a plain tree gives its normal form.\<close>

lemma normalize_str: "plain_tree t \<Longrightarrow> normalize (str t) = nstr t"
proof -
  assume p: "plain_tree t"
  have "str t = render 0 (GT t 0)"
    by (simp add: render_0 rend_GT sp_0)
  then have "normalize (str t) = rend (lmapn Hfin None (GT t 0))"
    by (simp add: normalize_render [OF wf_GT(1) [OF p]])
  then show ?thesis
    by (simp add: rend_norm_GT Hfin_None sp_0)
qed

section \<open>The argument loop on plain arguments\<close>

lemma strip_ends:
  assumes "w \<noteq> []" and "\<not> isspace (hd w)" and "\<not> isspace (last w)"
  shows "strip (sp j @ w @ sp k) = w"
proof -
  from assms obtain a u where a: "w = a # u" and na: "\<not> isspace a"
    by (cases w) auto
  from assms have "rev w \<noteq> []" and "\<not> isspace (hd (rev w))"
    by (auto simp: hd_rev)
  then obtain b v where b: "rev w = b # v" and nb: "\<not> isspace b"
    by (cases "rev w") auto
  have "dropWhile isspace (sp j @ w @ sp k) = w @ sp k"
    using a na by (simp add: dropWhile_sp)
  moreover have "dropWhile isspace (rev (w @ sp k)) = rev w"
    using b nb by (simp add: sp_def dropWhile_append isspace_blank)
  ultimately show ?thesis
    by (simp add: strip_def)
qed

lemma strip_plain:
  assumes "w \<noteq> []" and "list_all (\<lambda>c. \<not> isspace c) w"
  shows "strip (sp j @ w @ sp k) = w"
proof (rule strip_ends [OF assms(1)])
  from assms show "\<not> isspace (hd w)" by (cases w) auto
  from assms show "\<not> isspace (last w)" by (auto simp: list_all_iff)
qed

lemma plain_chars:
  assumes "plain w"
  shows "w \<noteq> []" and "list_all (\<lambda>c. \<not> isspace c) w"
    and "list_all (\<lambda>c. c \<noteq> CHR 0x5C \<and> c \<noteq> CHR 0x22 \<and> c \<noteq> CHR '','') w"
    and "CHR '':'' \<notin> set w" and "CHR '')'' \<notin> set w"
  using assms by (auto simp: plain_def special_def list_all_iff)

lemma strip_quotes_plain:
  assumes "plain w"
  shows "strip_quotes (sp k @ w) = w"
proof -
  have s: "strip (sp k @ w) = w"
    using strip_plain [OF plain_chars(1,2) [OF assms], of k 0] by (simp add: sp_0)
  from plain_chars(1,3) [OF assms] have "hd w \<noteq> CHR 0x22"
    by (cases w) auto
  with s show ?thesis
    by (simp add: strip_quotes_def)
qed

text \<open>A word without backslash, double quote and comma goes into the current argument.\<close>

lemma args_loop_word:
  assumes "list_all (\<lambda>c. c \<noteq> CHR 0x5C \<and> c \<noteq> CHR 0x22 \<and> c \<noteq> CHR '','') w"
  shows "args_loop (w @ s) cur q acc
           = (if s = [] then (acc, cur @ w) else args_loop s (cur @ w) q acc)"
  using assms
proof (induction w arbitrary: cur)
  case Nil
  show ?case by simp
next
  case (Cons c w)
  show ?case
  proof (cases "w @ s")
    case Nil
    with Cons.prems show ?thesis by simp
  next
    case (Cons d r)
    have "args_loop (c # d # r) cur q acc = args_loop (d # r) (cur @ [c]) q acc"
      using Cons.prems by simp
    with Cons Cons.IH [of "cur @ [c]"] Cons.prems show ?thesis
      by (simp del: args_loop.simps)
  qed
qed

lemma join_nonempty: "x \<noteq> [] \<Longrightarrow> join sep (x # xs) \<noteq> []"
  by (simp add: join_def)

lemma args_loop_join:
  "list_all plain (x # xs) \<Longrightarrow>
   finish (args_loop (join '', '' (x # xs)) (sp k) False acc) = acc @ x # xs"
proof (induction xs arbitrary: x k acc)
  case Nil
  then have p: "plain x" by simp
  show ?case
    using args_loop_word [OF plain_chars(3) [OF p], of "[]" "sp k" False acc]
          plain_chars(1) [OF p] strip_quotes_plain [OF p]
    by (simp add: join_single finish_def)
next
  case (Cons y ys)
  then have p: "plain x" and py: "plain y" and rest: "list_all plain (y # ys)"
    by simp_all
  obtain d r where j: "join '', '' (y # ys) = d # r"
    using join_nonempty [OF plain_chars(1) [OF py], of "'', ''" ys]
    by (cases "join '', '' (y # ys)") auto
  have "args_loop (join '', '' (x # y # ys)) (sp k) False acc
          = args_loop (CHR '','' # CHR '' '' # d # r) (sp k @ x) False acc"
    using args_loop_word [OF plain_chars(3) [OF p], of "'', '' @ join '', '' (y # ys)" "sp k" False acc]
    by (simp add: join_Cons_Cons j)
  also have "\<dots> = args_loop (CHR '' '' # d # r) [] False (acc @ [x])"
    by (simp add: strip_quotes_plain [OF p])
  also have "\<dots> = args_loop (d # r) (sp 1) False (acc @ [x])"
    by (simp add: sp_def)
  finally show ?case
    using Cons.IH [OF rest, of 1 "acc @ [x]"] by (simp add: j)
qed

lemma parse_args_join: "list_all plain (x # xs) \<Longrightarrow> parse_args (join '', '' (x # xs)) = x # xs"
proof -
  assume p: "list_all plain (x # xs)"
  then have "join '', '' (x # xs) \<noteq> []"
    using join_nonempty [of x] plain_chars(1) [of x] by simp
  with args_loop_join [OF p, of 0 "[]"] show ?thesis
    by (simp add: parse_args_def finish_def sp_0 split: prod.splits)
qed

section \<open>The parser on the normal form of an atom\<close>

lemma py_find_head: "py_find (c # rest) [c] 0 = Some 0"
  by (simp add: py_find.simps [of "c # rest" "[c]" 0] slice_def)

lemma py_find_skip:
  "c \<notin> set w \<Longrightarrow>
   py_find (w @ rest) [c] 0 = map_option (\<lambda>k. length w + k) (py_find rest [c] 0)"
proof (induction w)
  case Nil
  show ?case by (simp add: option.map_ident)
next
  case (Cons x w)
  then have "py_find (x # w @ rest) [c] 0 = py_find (x # w @ rest) [c] (Suc 0)"
    by (auto simp: py_find.simps [of "x # w @ rest" "[c]" 0] slice_def)
  with Cons show ?case
    by (simp add: py_find_Cons_Suc map_option.compositionality comp_def)
qed

lemma py_find_first: "c \<notin> set w \<Longrightarrow> py_find (w @ c # rest) [c] 0 = Some (length w)"
  by (simp add: py_find_skip py_find_head)

lemma py_find_from:
  "py_find (pre @ s) sub (length pre) = map_option (\<lambda>k. length pre + k) (py_find s sub 0)"
  using py_find_shift [of pre s sub 0] by simp

lemma join_args_chars:
  assumes "list_all plain a" and "c = CHR '':'' \<or> c = CHR '')''"
  shows "c \<notin> set (join '', '' a)"
  using assms(1)
proof (induction a rule: induct_list012)
  case 1
  show ?case by (simp add: join_Nil)
next
  case (2 x)
  with assms(2) plain_chars(4,5) [of x] show ?case
    by (auto simp: join_single)
next
  case (3 x y zs)
  with assms(2) plain_chars(4,5) [of x] show ?case
    by (auto simp: join_Cons_Cons)
qed

lemma join_args_ends:
  assumes "list_all plain (x # xs)"
  shows "join '', '' (x # xs) \<noteq> []" and "\<not> isspace (hd (join '', '' (x # xs)))"
    and "\<not> isspace (last (join '', '' (x # xs)))"
proof -
  from assms have px: "plain x" by simp
  show "join '', '' (x # xs) \<noteq> []"
    using join_nonempty [OF plain_chars(1) [OF px]] .
  show "\<not> isspace (hd (join '', '' (x # xs)))"
    using plain_chars(1,2) [OF px] by (cases x) (auto simp: join_def)
  from assms show "\<not> isspace (last (join '', '' (x # xs)))"
  proof (induction xs arbitrary: x)
    case Nil
    then show ?case
      using plain_chars(1,2) [of x] by (auto simp: join_single list_all_iff)
  next
    case (Cons y ys)
    then have "\<not> isspace (last (join '', '' (y # ys)))" by simp
    moreover have "join '', '' (y # ys) \<noteq> []"
      using Cons.prems join_nonempty [OF plain_chars(1), of y] by simp
    ultimately show ?case
      by (simp add: join_Cons_Cons)
  qed
qed

lemma slice_middle: "slice (p @ m @ q) (length p) (length p + length m) = m"
  by (simp add: slice_def)

lemma parse_script_node_nstr:
  assumes "plain n" and "list_all plain a"
  shows "parse_script_node (pre @ nstr (ScriptNode r n a) @ post) (length pre)
           = (ScriptNode PyNone n a, length pre + length (nstr (ScriptNode r n a)))"
proof (cases a)
  case Nil
  let ?body = "'' '' @ n @ '' ''"
  let ?expr = "pre @ nstr (ScriptNode r n a) @ post"
  have e: "?expr = (pre @ ''('') @ ?body @ CHR '')'' # post"
    using Nil by simp
  have nb: "CHR '')'' \<notin> set ?body" "CHR '':'' \<notin> set ?body"
    using plain_chars(4,5) [OF assms(1)] by auto
  have cl: "py_find ?expr '')'' (length pre + 1) = Some (length pre + 1 + length ?body)"
    unfolding e using py_find_from [of "pre @ ''(''" "?body @ CHR '')'' # post" "'')''"]
      py_find_first [OF nb(1), of post]
    by simp
  have co: "py_find ?expr '':'' (length pre + 1) = None \<or>
            (\<exists>k. py_find ?expr '':'' (length pre + 1) = Some (length pre + 1 + length ?body + k))"
    unfolding e using py_find_from [of "pre @ ''(''" "?body @ CHR '')'' # post" "'':''"]
      py_find_skip [OF nb(2), of "CHR '')'' # post"]
    by (cases "py_find (CHR '')'' # post) '':'' 0") auto
  have sl: "slice ?expr (length pre + 1) (length pre + 1 + length ?body) = ?body"
    unfolding e using slice_middle [of "pre @ ''(''" ?body "CHR '')'' # post"] by simp
  have st: "strip ?body = n"
    using strip_plain [OF plain_chars(1,2) [OF assms(1)], of 1 1] by (simp add: sp_def)
  from co show ?thesis
  proof
    assume "py_find ?expr '':'' (length pre + 1) = None"
    with cl sl st Nil show ?thesis
      by (simp add: parse_script_node_def Let_def)
  next
    assume "\<exists>k. py_find ?expr '':'' (length pre + 1) = Some (length pre + 1 + length ?body + k)"
    then obtain k where "py_find ?expr '':'' (length pre + 1) = Some (length pre + 1 + length ?body + k)" ..
    with cl sl st Nil show ?thesis
      by (simp add: parse_script_node_def Let_def)
  qed
next
  case (Cons x xs)
  let ?args = "join '', '' a"
  let ?head = "'' '' @ n"
  let ?tail = "?args @ '' ''"
  let ?expr = "pre @ nstr (ScriptNode r n a) @ post"
  have e: "?expr = (pre @ ''('') @ (?head @ CHR '':'' # ?tail) @ CHR '')'' # post"
    using Cons by simp
  have e2: "?expr = (pre @ ''('') @ ?head @ CHR '':'' # (?tail @ CHR '')'' # post)"
    using Cons by simp
  have e3: "?expr = (pre @ ''('' @ ?head @ '':'') @ ?tail @ (CHR '')'' # post)"
    using Cons by simp
  have nb: "CHR '')'' \<notin> set (?head @ CHR '':'' # ?tail)"
    using plain_chars(5) [OF assms(1)] join_args_chars [OF assms(2), of "CHR '')''"] by auto
  have nc: "CHR '':'' \<notin> set ?head"
    using plain_chars(4) [OF assms(1)] by auto
  have cl: "py_find ?expr '')'' (length pre + 1)
              = Some (length pre + 1 + length (?head @ CHR '':'' # ?tail))"
    unfolding e using py_find_from [of "pre @ ''(''" "(?head @ CHR '':'' # ?tail) @ CHR '')'' # post" "'')''"]
      py_find_first [OF nb, of post]
    by simp
  have co: "py_find ?expr '':'' (length pre + 1) = Some (length pre + 1 + length ?head)"
    unfolding e2 using py_find_from [of "pre @ ''(''" "?head @ CHR '':'' # (?tail @ CHR '')'' # post)" "'':''"]
      py_find_first [OF nc, of "?tail @ CHR '')'' # post"]
    by simp
  have sl1: "slice ?expr (length pre + 1) (length pre + 1 + length ?head) = ?head"
    unfolding e2 using slice_middle [of "pre @ ''(''" ?head "CHR '':'' # (?tail @ CHR '')'' # post)"]
    by simp
  have sl2: "slice ?expr (length pre + 1 + length ?head + 1)
               (length pre + 1 + length (?head @ CHR '':'' # ?tail)) = ?tail"
    unfolding e3 using slice_middle [of "pre @ ''('' @ ?head @ '':''" ?tail "CHR '')'' # post"]
    by (simp add: add.assoc)
  have st1: "strip ?head = n"
    using strip_plain [OF plain_chars(1,2) [OF assms(1)], of 1 0] by (simp add: sp_def)
  have st2: "strip ?tail = ?args"
    using strip_ends [OF join_args_ends [of x xs], of 0 1] assms(2) Cons by (simp add: sp_def)
  have pa: "parse_args ?args = a"
    using parse_args_join [of x xs] assms(2) Cons by simp
  from cl co sl1 sl2 st1 st2 pa Cons show ?thesis
    by (simp add: parse_script_node_def Let_def)
qed

section \<open>Single steps of the parser\<close>







lemma nstr_starts: "\<not> (\<exists>r. t = NotNode r None) \<Longrightarrow> \<exists>c s. nstr t = c # s \<and> starter c"
  by (cases t rule: nstr.cases) (auto simp: starter_def opword_def)

lemma plain_tree_not_none: "plain_tree t \<Longrightarrow> \<not> (\<exists>r. t = NotNode r None)"
  by auto







section \<open>The normal form of the text of any tree\<close>















section \<open>An atom inside a text\<close>

lemma takeWhile_less:
  assumes "c \<in> set s"
  shows "length (takeWhile (\<lambda>x. x \<noteq> c) s) < length s"
proof -
  have "takeWhile (\<lambda>x. x \<noteq> c) s \<noteq> s"
    using assms by (auto simp: takeWhile_eq_all_conv)
  then show ?thesis
    using length_takeWhile_le [of "\<lambda>x. x \<noteq> c" s] takeWhile_eq_take [of "\<lambda>x. x \<noteq> c" s]
    by (cases "length (takeWhile (\<lambda>x. x \<noteq> c) s) = length s") auto
qed

lemma py_find_char:
  "py_find s [c] 0 = (if c \<in> set s then Some (length (takeWhile (\<lambda>x. x \<noteq> c) s)) else None)"
proof (cases "c \<in> set s")
  case True
  then have ne: "dropWhile (\<lambda>x. x \<noteq> c) s \<noteq> []"
    by (auto simp: dropWhile_eq_Nil_conv)
  from hd_dropWhile [OF ne] have "hd (dropWhile (\<lambda>x. x \<noteq> c) s) = c"
    by simp
  with ne obtain r where r: "dropWhile (\<lambda>x. x \<noteq> c) s = c # r"
    by (cases "dropWhile (\<lambda>x. x \<noteq> c) s") auto
  have "c \<notin> set (takeWhile (\<lambda>x. x \<noteq> c) s)"
    by (auto dest: set_takeWhileD)
  from py_find_first [OF this, of r] r True show ?thesis
    using takeWhile_dropWhile_id [of "\<lambda>x. x \<noteq> c" s] by simp
next
  case False
  from py_find_skip [OF this, of "[]"] False show ?thesis
    by (simp add: py_find_Nil)
qed

lemma py_find_past:
  assumes "c \<notin> set body" and "d \<noteq> c"
  shows "py_find (body @ d # post) [c] 0 = None
         \<or> (\<exists>k. py_find (body @ d # post) [c] 0 = Some k \<and> length body < k)"
proof -
  have "takeWhile (\<lambda>x. x \<noteq> c) (body @ d # post)
          = body @ takeWhile (\<lambda>x. x \<noteq> c) (d # post)"
    using assms(1) by (intro takeWhile_append2) auto
  then show ?thesis
    using assms(2) by (simp add: py_find_char)
qed

lemma psn_body:
  assumes "CHR '')'' \<notin> set body"
  shows "parse_script_node (pre @ x0 # body @ CHR '')'' # post) (length pre)
           = (read_body body, length pre + length body + 2)"
proof -
  define e where "e = pre @ x0 # body @ CHR '')'' # post"
  have e1: "e = (pre @ [x0]) @ body @ CHR '')'' # post"
    by (simp add: e_def)
  have cl: "py_find e '')'' (length pre + 1) = Some (length pre + 1 + length body)"
    unfolding e1 using py_find_from [of "pre @ [x0]" "body @ CHR '')'' # post" "'')''"]
      py_find_first [OF assms, of post] by simp
  have co: "py_find e '':'' (length pre + 1)
              = map_option (\<lambda>k. length pre + 1 + k) (py_find (body @ CHR '')'' # post) '':'' 0)"
    unfolding e1 using py_find_from [of "pre @ [x0]" "body @ CHR '')'' # post" "'':''"]
    by simp
  have whole: "slice e (length pre + 1) (length pre + 1 + length body) = body"
    unfolding e1 using slice_middle [of "pre @ [x0]" body "CHR '')'' # post"] by simp
  show ?thesis
  proof (cases "CHR '':'' \<in> set body")
    case False
    from py_find_past [OF False, of "CHR '')''" post]
    have "py_find e '':'' (length pre + 1) = None
          \<or> (\<exists>k. py_find e '':'' (length pre + 1) = Some k \<and> length pre + 1 + length body < k)"
      unfolding co by auto
    moreover have "read_body body = ScriptNode PyNone (strip body) []"
      using False by (simp add: read_body_def py_find_char)
    ultimately show ?thesis
      unfolding e_def [symmetric] using cl whole
      by (auto simp: parse_script_node_def Let_def)
  next
    case True
    define k where "k = length (takeWhile (\<lambda>x. x \<noteq> CHR '':'') body)"
    have kb: "k < length body"
      unfolding k_def using True by (rule takeWhile_less)
    have pb: "py_find body '':'' 0 = Some k"
      using True by (simp add: py_find_char k_def)
    have "takeWhile (\<lambda>x. x \<noteq> CHR '':'') (body @ CHR '')'' # post)
            = takeWhile (\<lambda>x. x \<noteq> CHR '':'') body"
      using True by (simp add: takeWhile_append1)
    then have "py_find (body @ CHR '')'' # post) '':'' 0 = Some k"
      using True by (simp add: py_find_char k_def)
    then have cof: "py_find e '':'' (length pre + 1) = Some (length pre + 1 + k)"
      unfolding co by simp
    have e2: "e = (pre @ [x0]) @ take k body @ (drop k body @ CHR '')'' # post)"
      by (simp add: e_def)
    have nm: "slice e (length pre + 1) (length pre + 1 + k) = take k body"
      unfolding e2 using slice_middle [of "pre @ [x0]" "take k body" "drop k body @ CHR '')'' # post"] kb
      by simp
    have ar: "slice e (length pre + 1 + k + 1) (length pre + 1 + length body) = drop (k + 1) body"
      unfolding e_def slice_def using kb by simp
    have "read_body body
            = ScriptNode PyNone (strip (take k body)) (parse_args (strip (drop (k + 1) body)))"
      by (simp add: read_body_def pb)
    then show ?thesis
      unfolding e_def [symmetric] using cl cof nm ar kb
      by (simp add: parse_script_node_def Let_def add.assoc)
  qed
qed

section \<open>What an atom that is read back looks like\<close>

lemma set_strip: "set (strip s) \<subseteq> set s"
proof -
  have "set (strip s) = set (dropWhile isspace (rev (dropWhile isspace s)))"
    by (simp add: strip_def)
  also have "\<dots> \<subseteq> set (rev (dropWhile isspace s))"
    by (auto dest: set_dropWhileD)
  also have "\<dots> \<subseteq> set s"
    by (auto dest: set_dropWhileD)
  finally show ?thesis .
qed

lemma set_slice: "set (slice s i j) \<subseteq> set s"
  by (auto simp: slice_def dest: in_set_takeD in_set_dropD)

lemma set_strip_quotes: "set (strip_quotes s) \<subseteq> set s"
  using set_slice [of "strip s" 1 "length (strip s) - 1"] set_strip [of s]
  by (auto simp: strip_quotes_def Let_def)

lemma args_loop_chars:
  assumes "args_loop s cur q acc = (acc', cur')"
    and "set s \<subseteq> C" and "set cur \<subseteq> C" and "\<forall>x\<in>set acc. set x \<subseteq> C"
  shows "set cur' \<subseteq> C \<and> (\<forall>x\<in>set acc'. set x \<subseteq> C)"
  using assms
proof (induction s cur q acc rule: args_loop.induct)
  case (1 cur q acc)
  then show ?case by simp
next
  case (2 c cur q acc)
  have "set (strip_quotes cur) \<subseteq> C"
    using set_strip_quotes [of cur] 2(3) by blast
  with 2 show ?case
    by (auto simp: subset_iff split: if_splits)
next
  case (3 c d rest cur q acc)
  have sq: "set (strip_quotes cur) \<subseteq> C"
    using set_strip_quotes [of cur] 3(7) by blast
  show ?case
  proof (cases "c = CHR 0x5C")
    case True
    with 3(5) have "args_loop rest (cur @ [d]) q acc = (acc', cur')"
      by simp
    from 3(1) [OF True this] 3(6,7,8) show ?thesis
      by simp
  next
    case nb: False
    show ?thesis
    proof (cases "c = CHR 0x22")
      case True
      with nb 3(5) have "args_loop (d # rest) (cur @ [c]) (\<not> q) acc = (acc', cur')"
        by simp
      from 3(2) [OF nb True this] 3(6,7,8) show ?thesis
        by simp
    next
      case nq: False
      show ?thesis
      proof (cases "c = CHR '','' \<and> \<not> q")
        case True
        with nb nq 3(5) have "args_loop (d # rest) [] q (acc @ [strip_quotes cur]) = (acc', cur')"
          by simp
        from 3(3) [OF nb nq True this] 3(6,8) sq show ?thesis
          by simp
      next
        case False
        with nb nq 3(5) have "args_loop (d # rest) (cur @ [c]) q acc = (acc', cur')"
          by auto
        from 3(4) [OF nb nq False this] 3(6,7,8) show ?thesis
          by simp
      qed
    qed
  qed
qed

lemma parse_args_chars:
  assumes "x \<in> set (parse_args s)"
  shows "set x \<subseteq> set s"
proof -
  obtain acc cur where l: "args_loop s [] False [] = (acc, cur)"
    by (cases "args_loop s [] False []")
  from args_loop_chars [OF l, of "set s"]
  have c: "set cur \<subseteq> set s" and a: "\<forall>x\<in>set acc. set x \<subseteq> set s"
    by simp_all
  from c set_strip_quotes [of cur] have "set (strip_quotes cur) \<subseteq> set s"
    by blast
  with assms l a show ?thesis
    by (auto simp: parse_args_def split: if_splits)
qed

lemma read_body_chars:
  assumes "read_body body = ScriptNode r n a"
  shows "set n \<subseteq> set body" and "\<forall>x\<in>set a. set x \<subseteq> set body"
proof -
  have t: "set (strip (take k body)) \<subseteq> set body" for k
    using set_strip [of "take k body"] by (auto dest: in_set_takeD)
  have d: "set x \<subseteq> set body" if "x \<in> set (parse_args (strip (drop k body)))" for x k
    using parse_args_chars [OF that] set_strip [of "drop k body"] by (auto dest: in_set_dropD)
  from assms t set_strip [of body] show "set n \<subseteq> set body"
    by (auto simp: read_body_def split: option.splits)
  from assms d show "\<forall>x\<in>set a. set x \<subseteq> set body"
    by (auto simp: read_body_def split: option.splits)
qed

text \<open>
  The name and the arguments that \<^verbatim>\<open>_parse_script_node\<close> returns are made of characters
  of the text, and none of them is a closing parenthesis.
\<close>

lemma psn_chars:
  assumes "parse_script_node x p = (ScriptNode r n a, q)"
  shows "set n \<subseteq> set x - {CHR '')''}" and "\<forall>y\<in>set a. set y \<subseteq> set x - {CHR '')''}"
proof -
  have "set n \<subseteq> set x - {CHR '')''} \<and> (\<forall>y\<in>set a. set y \<subseteq> set x - {CHR '')''})"
  proof (cases "p < length x")
    case False
    then have "py_find x '')'' (p + 1) = None"
      by (simp add: py_find.simps [of x _ "Suc p"])
    moreover from False have "slice x (p + 1) (length x - 1) = []"
      by (simp add: slice_def)
    ultimately show ?thesis
      using assms by (simp add: parse_script_node_def Let_def strip_def)
  next
    case True
    define pre where "pre = take p x"
    define s where "s = drop (Suc p) x"
    have x: "x = pre @ x ! p # s" and lp: "length pre = p"
      using True id_take_nth_drop [OF True] by (simp_all add: pre_def s_def)
    have x1: "x = (pre @ [x ! p]) @ s"
      using x by simp
    have pf: "py_find x '')'' (p + 1) = map_option (\<lambda>k. p + 1 + k) (py_find s '')'' 0)"
      using py_find_from [of "pre @ [x ! p]" s "'')''"] x1 lp by simp
    show ?thesis
    proof (cases "CHR '')'' \<in> set s")
      case False
      then have "py_find x '')'' (p + 1) = None"
        unfolding pf by (simp add: py_find_char)
      with assms have n: "n = strip (slice x (p + 1) (length x - 1))" and a: "a = []"
        by (simp_all add: parse_script_node_def Let_def)
      have "set (slice x (p + 1) (length x - 1)) \<subseteq> set s"
        by (auto simp: slice_def s_def dest: in_set_takeD)
      moreover have "set s \<subseteq> set x"
        by (auto simp: s_def dest: in_set_dropD)
      ultimately show ?thesis
        using set_strip [of "slice x (p + 1) (length x - 1)"] False n a by auto
    next
      case True
      define body where "body = takeWhile (\<lambda>c. c \<noteq> CHR '')'') s"
      from True have ne: "dropWhile (\<lambda>c. c \<noteq> CHR '')'') s \<noteq> []"
        by (auto simp: dropWhile_eq_Nil_conv)
      from hd_dropWhile [OF ne] have "hd (dropWhile (\<lambda>c. c \<noteq> CHR '')'') s) = CHR '')''"
        by simp
      with ne obtain post where "dropWhile (\<lambda>c. c \<noteq> CHR '')'') s = CHR '')'' # post"
        by (cases "dropWhile (\<lambda>c. c \<noteq> CHR '')'') s") auto
      then have s: "s = body @ CHR '')'' # post"
        using takeWhile_dropWhile_id [of "\<lambda>c. c \<noteq> CHR '')''" s] by (simp add: body_def)
      have nb: "CHR '')'' \<notin> set body"
        by (auto simp: body_def dest: set_takeWhileD)
      have "parse_script_node (pre @ x ! p # body @ CHR '')'' # post) (length pre)
              = (ScriptNode r n a, q)"
        using assms x lp s by simp
      with psn_body [OF nb, of pre "x ! p" post]
      have "read_body body = ScriptNode r n a"
        by simp
      from read_body_chars [OF this] nb have
        "set n \<subseteq> set body - {CHR '')''}" and "\<forall>y\<in>set a. set y \<subseteq> set body - {CHR '')''}"
        by auto
      moreover have "set body \<subseteq> set x"
        using x s by (metis Un_iff set_append set_subset_Cons subsetI subset_trans)
      ultimately show ?thesis
        by blast
    qed
  qed
  then show "set n \<subseteq> set x - {CHR '')''}" and "\<forall>y\<in>set a. set y \<subseteq> set x - {CHR '')''}"
    by simp_all
qed

text \<open>The white space of a normalised text is made of blanks.\<close>

lemma blanks_re_sub_spaces: "blanks_only (re_sub_spaces s)"
  by (induction s rule: re_sub_spaces.induct) (simp_all add: blanks_only_def)

lemma blanks_normalize: "blanks_only (normalize s)"
  using blanks_re_sub_spaces set_strip
  by (fastforce simp: normalize_def Let_def blanks_only_def list_all_iff)

lemma set_join: "set (join sep xs) \<subseteq> set sep \<union> \<Union> (set ` set xs)"
  by (cases xs) (auto simp: join_def)

lemma atext_chars:
  assumes "set n \<subseteq> S" and "\<forall>y\<in>set a. set y \<subseteq> S"
  shows "set (atext n a) \<subseteq> {CHR '','', CHR '':''} \<union> S"
proof -
  have "set (join '','' a) \<subseteq> {CHR '',''} \<union> S"
    using set_join [of "'',''" a] assms(2) by auto
  with assms(1) show ?thesis
    by (auto simp: atext_def)
qed

lemma psn_clean:
  assumes "parse_script_node x p = (nd, q)" and "blanks_only x"
  shows "clean nd"
proof -
  from assms(1) obtain n a where nd: "nd = ScriptNode PyNone n a"
    by (auto simp: parse_script_node_def Let_def split: option.splits if_splits)
  from psn_chars [OF assms(1) [unfolded nd]]
  have "set (atext n a) \<subseteq> {CHR '','', CHR '':''} \<union> (set x - {CHR '')''})"
    by (intro atext_chars) simp_all
  with assms(2) show ?thesis
    unfolding nd by (auto simp: blanks_only_def list_all_iff not_isspace_tokens)
qed

lemma reads_back_chars:
  assumes "reads_back n a"
  shows "blanks_only (atext n a)" and "CHR '')'' \<notin> set (atext n a)"
proof -
  define x where "x = normalize (str (ScriptNode PyNone n a))"
  from assms obtain q where "parse_script_node x 0 = (ScriptNode PyNone n a, q)"
    unfolding reads_back_def x_def by (cases "parse_script_node x 0") (simp add: x_def)
  from psn_clean [OF this] blanks_normalize show "blanks_only (atext n a)"
    and "CHR '')'' \<notin> set (atext n a)"
    by (simp_all add: x_def)
qed

section \<open>The parser on the normal form of any tree\<close>











lemma trail_Nil: "trail t [] = 0"
  by (simp add: trail_def)






section \<open>The parser leaves every cached result empty\<close>





section \<open>The trees that the parser returns\<close>




lemma read_back_clean: "atoms_read_back t \<Longrightarrow> clean t"
  by (induction t rule: clean.induct) (simp_all add: list_all_iff reads_back_chars)



section \<open>Parsing, printing and parsing again\<close>


text \<open>
  A tree with plain atoms, in which every Not has a child, passes the format check when
  it is printed, and its atoms are read back.
\<close>

lemma plain_reads_back: "plain n \<Longrightarrow> list_all plain a \<Longrightarrow> reads_back n a"
proof -
  assume p: "plain n" "list_all plain a"
  then have "plain_tree (ScriptNode PyNone n a)"
    by simp
  then have "normalize (str (ScriptNode PyNone n a)) = nstr (ScriptNode PyNone n a)"
    by (rule normalize_str)
  moreover have "parse_script_node ([] @ nstr (ScriptNode PyNone n a) @ []) (length ([] :: string))
      = (ScriptNode PyNone n a, length ([] :: string) + length (nstr (ScriptNode PyNone n a)))"
    using p by (rule parse_script_node_nstr)
  ultimately show ?thesis
    unfolding reads_back_def by simp
qed

lemma plain_tree_reads_back:
  "plain_tree t \<Longrightarrow> validate_expression_format (str t) \<and> atoms_read_back t"
proof
  assume p: "plain_tree t"
  then show "validate_expression_format (str t)"
    by (rule validate_str)
  from p show "atoms_read_back t"
    by (induction t rule: plain_tree.induct) (simp_all add: plain_reads_back list_all_iff)
qed





end
